theory Spec2Isabelle
  imports Main "HOL-Library.AList"
begin

section \<open>Values carried by a run\<close>

text \<open>
  Payloads (inputs, outputs, filter results) are JSON values. An object is an association
  list in insertion order; assigning a key (\<^verbatim>\<open>acc[k] = v\<close>, \<^verbatim>\<open>{...o, k: v}\<close>) is
  \<open>AList.update\<close>, which overwrites an existing key in place and appends a new one.
  Numbers are integers (the only arithmetic of the code is \<^verbatim>\<open>i + 1\<close> on a loop index).
\<close>

datatype json =
    JNull
  | JBool bool
  | JNum int
  | JStr string
  | JArr "json list"
  | JObj "(string \<times> json) list"

text \<open>
  A property of a JavaScript object is absent, present with the value \<^verbatim>\<open>undefined\<close>, or
  present with a value. The code tests presence with \<^verbatim>\<open>'output' in step\<close> and
  \<^verbatim>\<open>'error' in step\<close>, and \<^verbatim>\<open>JSON.stringify\<close> drops the properties whose value is
  \<^verbatim>\<open>undefined\<close>, so the three cases are kept apart.
\<close>

datatype 'a field = Absent | Undefined | Present 'a

fun has_key :: "'a field \<Rightarrow> bool" where
  "has_key Absent = False"
| "has_key Undefined = True"
| "has_key (Present v) = True"

fun is_defined :: "'a field \<Rightarrow> bool" where
  "is_defined (Present v) = True"
| "is_defined f = False"

text \<open>JavaScript truthiness of a JSON value (\<^verbatim>\<open>!!v\<close>).\<close>

fun truthy :: "json \<Rightarrow> bool" where
  "truthy JNull = False"
| "truthy (JBool b) = b"
| "truthy (JNum n) = (n \<noteq> 0)"
| "truthy (JStr s) = (s \<noteq> [])"
| "truthy (JArr xs) = True"
| "truthy (JObj kvs) = True"

text \<open>
  Modelled from the spec: the declarations of \<^verbatim>\<open>IntegrationError\<close> and \<^verbatim>\<open>ServiceError\<close>
  are not among the sources; the code reads their \<^verbatim>\<open>message\<close> only. A thrown \<^verbatim>\<open>Error\<close>
  is the same kind of value. An error object is always truthy.
\<close>

datatype error = Error (message: string)

type_synonym timestamp = nat
type_synonym uuid = nat

section \<open>Schemas\<close>

text \<open>
  Modelled from the spec: the action schemas are declared outside the sources; the fields
  are the ones the code reads. A declared path of a split-into-paths action has a name and a
  filter (\<^verbatim>\<open>path.name\<close>, \<^verbatim>\<open>path.filter\<close>). The parameters of an action are an object, or
  the list of declared paths for split-into-paths.
\<close>

record path_schema =
  path_name :: string
  path_filter :: json

datatype params = Object json | PathList "path_schema list"

record action_schema =
  name :: string
  service :: string
  action :: string
  account :: string
  params :: params

text \<open>The schema kept on a paths step: \<^verbatim>\<open>{ name, service, action }\<close>.\<close>

record paths_step_schema =
  ps_name :: string
  ps_service :: string
  ps_action :: string

section \<open>The step tree\<close>

text \<open>
  Modelled from the spec: the step value objects are declared outside the sources; the
  fields are those of the object literals that the run and the dispatcher build.
  \<^verbatim>\<open>ActionOrPathsStep\<close> is a tagged union; a path owns its list of nested steps.
  Action step: schema, input, output, error, startedAt, finishedAt.
  Paths step: schema, startedAt, finishedAt, paths.
  Path: schema, input, output, actions.
\<close>

datatype step =
    ActionStep action_schema json "json field" "error field" timestamp "timestamp option"
  | PathsStep paths_step_schema timestamp "timestamp option" "path list"
and path =
    Path path_schema json json "step list"

fun schema_name :: "step \<Rightarrow> string" where
  "schema_name (ActionStep sch inp out err st fin) = name sch"
| "schema_name (PathsStep sch st fin ps) = ps_name sch"

fun path_schema_name :: "path \<Rightarrow> string" where
  "path_schema_name (Path sch inp out acts) = path_name sch"

fun actions :: "path \<Rightarrow> step list" where
  "actions (Path sch inp out acts) = acts"

fun path_output :: "path \<Rightarrow> json" where
  "path_output (Path sch inp out acts) = out"

fun set_actions :: "step list \<Rightarrow> path \<Rightarrow> path" where
  "set_actions acts' (Path sch inp out acts) = Path sch inp out acts'"

text \<open>\<^verbatim>\<open>action.error\<close> read on a nested step: undefined on a paths step, which has no such key.\<close>

fun step_error_truthy :: "step \<Rightarrow> bool" where
  "step_error_truthy (ActionStep sch inp out err st fin) = is_defined err"
| "step_error_truthy (PathsStep sch st fin ps) = False"

section \<open>The run\<close>

datatype RunStatus = playing | success | stopped | filtered

text \<open>
  Modelled from the spec: \<^verbatim>\<open>Steps\<close> and \<^verbatim>\<open>TriggerStep\<close> are declared outside the sources.
  \<^verbatim>\<open>steps\<close> has the type \<^verbatim>\<open>[TriggerStep, ...ActionOrPathsStep[]]\<close>: the record keeps the
  trigger step (of which the code reads \<^verbatim>\<open>output\<close> only) apart from the steps that follow it.
  The trigger step has neither an \<^verbatim>\<open>input\<close> nor a \<^verbatim>\<open>paths\<close> property, so the loops over
  \<^verbatim>\<open>this.steps\<close> that test for them pass over it; \<^verbatim>\<open>this.steps.push\<close> appends to \<open>steps\<close>.
\<close>

record run =
  automation_id :: int
  trigger_output :: json
  steps :: "step list"
  form_id :: "int option"
  status :: RunStatus
  run_id :: uuid
  createdAt :: timestamp
  updatedAt :: timestamp
  toReplay :: bool

section \<open>Dotted paths\<close>

text \<open>\<^verbatim>\<open>s.split('.')\<close> and \<^verbatim>\<open>segments.join('.')\<close>.\<close>

fun split_dot :: "string \<Rightarrow> string list" where
  "split_dot [] = [[]]"
| "split_dot (c # cs) =
     (if c = CHR ''.'' then [] # split_dot cs
      else (case split_dot cs of [] \<Rightarrow> [[c]] | s # ss \<Rightarrow> (c # s) # ss))"

fun join_dot :: "string list \<Rightarrow> string" where
  "join_dot [] = []"
| "join_dot [s] = s"
| "join_dot (s # t # ss) = s @ CHR ''.'' # join_dot (t # ss)"

text \<open>The loop of \<^verbatim>\<open>getActionOrPathsStep\<close> and \<^verbatim>\<open>paths.find\<close>: the first match by name.\<close>

fun find_step :: "string \<Rightarrow> step list \<Rightarrow> step option" where
  "find_step actionName [] = None"
| "find_step actionName (s # ss) =
     (if schema_name s = actionName then Some s else find_step actionName ss)"

fun find_path :: "string \<Rightarrow> path list \<Rightarrow> path option" where
  "find_path pathName [] = None"
| "find_path pathName (p # ps) =
     (if path_schema_name p = pathName then Some p else find_path pathName ps)"

lemma split_dot_nonempty: "split_dot s \<noteq> []"
  by (induction s) (auto split: list.splits)

lemma join_split_dot: "join_dot (split_dot s) = s"
proof (induction s)
  case Nil
  show ?case by simp
next
  case (Cons c cs)
  show ?case
  proof (cases "c = CHR ''.''")
    case True
    with Cons show ?thesis
      using split_dot_nonempty [of cs] by (cases "split_dot cs") auto
  next
    case False
    with Cons show ?thesis
      using split_dot_nonempty [of cs]
      by (cases "split_dot cs"; cases "tl (split_dot cs)") auto
  qed
qed

lemma length_join_dot_tail: "length (join_dot segs) \<le> length (join_dot (a # segs))"
  by (cases segs) auto

lemma length_join_dot_less:
  "length (join_dot segs) < length (join_dot (a # p # segs))"
  using length_join_dot_tail [of segs p] by simp

lemma split_dot_length_rest:
  assumes "split_dot s = a # p # segs"
  shows "length (join_dot segs) < length s"
proof -
  have "s = join_dot (a # p # segs)"
    using join_split_dot [of s] assms by simp
  then show ?thesis
    using length_join_dot_less [of segs a p] by simp
qed

lemma split_dot_length_head:
  assumes "split_dot s = a # p # segs"
  shows "length a < length s"
proof -
  have "s = join_dot (a # p # segs)"
    using join_split_dot [of s] assms by simp
  then show ?thesis by simp
qed

section \<open>Reading a step by its dotted path\<close>

text \<open>
  \<^verbatim>\<open>getActionOrPathsStep(actionPath, steps?)\<close>. The optional argument is \<open>None\<close> when the
  caller gives none (\<^verbatim>\<open>steps ?? this.steps\<close>). \<open>Inl\<close> is a thrown error, \<open>Inr None\<close> is
  \<^verbatim>\<open>undefined\<close>. In the dotted case the first segment is looked up by a call without the
  \<^verbatim>\<open>steps\<close> argument, that is in \<^verbatim>\<open>this.steps\<close>, whatever list the caller gave.
\<close>

function getActionOrPathsStep :: "run \<Rightarrow> string \<Rightarrow> step list option \<Rightarrow> error + step option" where
  "getActionOrPathsStep r actionPath stepsArg =
     (case split_dot actionPath of
        [] \<Rightarrow> Inr None
      | [actionName] \<Rightarrow>
          Inr (find_step actionName (case stepsArg of None \<Rightarrow> steps r | Some ss \<Rightarrow> ss))
      | actionName # pathName # segments \<Rightarrow>
          (case getActionOrPathsStep r actionName None of
             Inl e \<Rightarrow> Inl e
           | Inr None \<Rightarrow> Inr None
           | Inr (Some (ActionStep sch inp out err st fin)) \<Rightarrow> Inr None
           | Inr (Some (PathsStep sch st fin ps)) \<Rightarrow>
               (case find_path pathName ps of
                  None \<Rightarrow> Inl (Error ''Path step not found'')
                | Some path \<Rightarrow>
                    if segments \<noteq> []
                    then getActionOrPathsStep r (join_dot segments) (Some (actions path))
                    else Inr (Some (PathsStep sch st fin ps)))))"
  by pat_completeness auto
termination
  by (relation "measure (\<lambda>(r, actionPath, stepsArg). length actionPath)")
     (auto simp: split_dot_length_head split_dot_length_rest)

declare getActionOrPathsStep.simps [simp del]

definition getActionOrPathsStepOrThrow :: "run \<Rightarrow> string \<Rightarrow> error + step" where
  "getActionOrPathsStepOrThrow r actionPath =
     (case getActionOrPathsStep r actionPath None of
        Inl e \<Rightarrow> Inl e
      | Inr None \<Rightarrow> Inl (Error (''Action step \"'' @ actionPath @ ''\" not found''))
      | Inr (Some step) \<Rightarrow> Inr step)"

section \<open>Writing through a reference\<close>

text \<open>
  The code mutates the objects it found: \<^verbatim>\<open>find\<close> and the lookup loop return a reference to
  the first match, and the write lands there. On values, a write to the first match of a list
  rebuilds the list with that element replaced.
\<close>

fun update_first_step :: "string \<Rightarrow> (step \<Rightarrow> step) \<Rightarrow> step list \<Rightarrow> step list" where
  "update_first_step actionName f [] = []"
| "update_first_step actionName f (s # ss) =
     (if schema_name s = actionName then f s # ss else s # update_first_step actionName f ss)"

fun update_first_path :: "string \<Rightarrow> (path \<Rightarrow> path) \<Rightarrow> path list \<Rightarrow> path list" where
  "update_first_path pathName f [] = []"
| "update_first_path pathName f (p # ps) =
     (if path_schema_name p = pathName then f p # ps else p # update_first_path pathName f ps)"

text \<open>A write to the \<^verbatim>\<open>actions\<close> list of the first path named \<open>pathName\<close> of a paths step.\<close>

fun in_path :: "string \<Rightarrow> (step list \<Rightarrow> step list) \<Rightarrow> step \<Rightarrow> step" where
  "in_path pathName g (PathsStep sch st fin ps) =
     PathsStep sch st fin (update_first_path pathName (\<lambda>p. set_actions (g (actions p)) p) ps)"
| "in_path pathName g (ActionStep sch inp out err st fin) = ActionStep sch inp out err st fin"

text \<open>
  The write to the step that \<^verbatim>\<open>getActionOrPathsStep(actionPath)\<close> returned: the same descent,
  rebuilding the run. The last argument names the list the lookup walks: \<open>None\<close> for
  \<^verbatim>\<open>this.steps\<close>, \<open>Some (a, p)\<close> for the actions of path \<open>p\<close> of the top-level step \<open>a\<close>.
\<close>

function modifyStep :: "(step \<Rightarrow> step) \<Rightarrow> run \<Rightarrow> string \<Rightarrow> (string \<times> string) option \<Rightarrow> run" where
  "modifyStep f r actionPath ctx =
     (case split_dot actionPath of
        [] \<Rightarrow> r
      | [actionName] \<Rightarrow>
          (case ctx of
             None \<Rightarrow> r\<lparr>steps := update_first_step actionName f (steps r)\<rparr>
           | Some (a, p) \<Rightarrow>
               r\<lparr>steps := update_first_step a (in_path p (update_first_step actionName f)) (steps r)\<rparr>)
      | actionName # pathName # segments \<Rightarrow>
          (case find_step actionName (steps r) of
             None \<Rightarrow> r
           | Some (ActionStep sch inp out err st fin) \<Rightarrow> r
           | Some (PathsStep sch st fin ps) \<Rightarrow>
               (case find_path pathName ps of
                  None \<Rightarrow> r
                | Some path \<Rightarrow>
                    if segments \<noteq> []
                    then modifyStep f r (join_dot segments) (Some (actionName, pathName))
                    else r\<lparr>steps := update_first_step actionName f (steps r)\<rparr>)))"
  by pat_completeness auto
termination
  by (relation "measure (\<lambda>(f, r, actionPath, ctx). length actionPath)")
     (auto simp: split_dot_length_rest)

declare modifyStep.simps [simp del]

section \<open>Operations of the run\<close>

text \<open>
  Every \<^verbatim>\<open>new Date()\<close> of a method is a parameter of its model: the first is the time
  written on the step (\<^verbatim>\<open>startedAt\<close>, \<^verbatim>\<open>finishedAt\<close>), the second the one written to
  \<^verbatim>\<open>_updatedAt\<close>. \<^verbatim>\<open>crypto.randomUUID()\<close> is the parameter of \<open>clone\<close>.
\<close>

fun json_step :: "step \<Rightarrow> step"
  and json_path :: "path \<Rightarrow> path" where
  "json_step (ActionStep sch inp out err st fin) =
     ActionStep sch inp (if out = Undefined then Absent else out)
       (if err = Undefined then Absent else err) st fin"
| "json_step (PathsStep sch st fin ps) = PathsStep sch st fin (map json_path ps)"
| "json_path (Path sch inp out acts) = Path sch inp out (map json_step acts)"

text \<open>
  \<^verbatim>\<open>clone()\<close>: \<^verbatim>\<open>JSON.parse(JSON.stringify(this.steps))\<close> copies the tree and drops the
  properties whose value is \<^verbatim>\<open>undefined\<close>; \<^verbatim>\<open>createdAt\<close> and \<^verbatim>\<open>_updatedAt\<close> are passed
  on; \<^verbatim>\<open>_toReplay\<close> takes the constructor's default.
\<close>

definition clone :: "uuid \<Rightarrow> run \<Rightarrow> run" where
  "clone randomUUID r =
     \<lparr> automation_id = automation_id r,
       trigger_output = trigger_output r,
       steps = map json_step (steps r),
       form_id = form_id r,
       status = status r,
       run_id = randomUUID,
       createdAt = createdAt r,
       updatedAt = updatedAt r,
       toReplay = False \<rparr>"

definition replay :: "run \<Rightarrow> run" where
  "replay r = r\<lparr>toReplay := True\<rparr>"

definition replaying :: "timestamp \<Rightarrow> run \<Rightarrow> run" where
  "replaying now r = r\<lparr>status := playing, updatedAt := now, toReplay := False\<rparr>"

definition new_action_step :: "timestamp \<Rightarrow> action_schema \<Rightarrow> json \<Rightarrow> step" where
  "new_action_step startedAt schema input =
     ActionStep schema input Undefined Undefined startedAt None"

function startActionStep ::
  "timestamp \<Rightarrow> timestamp \<Rightarrow> string \<Rightarrow> action_schema \<Rightarrow> json \<Rightarrow> run \<Rightarrow> error + run" where
  "startActionStep t1 t2 actionPath schema input r =
     (case split_dot actionPath of
        [] \<Rightarrow> Inr (r\<lparr>steps := steps r @ [new_action_step t1 schema input], updatedAt := t2\<rparr>)
      | [actionName] \<Rightarrow>
          Inr (r\<lparr>steps := steps r @ [new_action_step t1 schema input], updatedAt := t2\<rparr>)
      | actionName # pathName # segments \<Rightarrow>
          (case getActionOrPathsStepOrThrow r actionName of
             Inl e \<Rightarrow> Inl e
           | Inr (ActionStep sch inp out err st fin) \<Rightarrow> Inl (Error ''Action step not found'')
           | Inr (PathsStep sch st fin ps) \<Rightarrow>
               (case find_path pathName ps of
                  None \<Rightarrow> Inl (Error ''Path step not found'')
                | Some path \<Rightarrow>
                    if length segments < 2
                    then Inr (r\<lparr>steps := update_first_step actionName
                                   (in_path pathName (\<lambda>acts. acts @ [new_action_step t1 schema input]))
                                   (steps r),
                                 updatedAt := t2\<rparr>)
                    else startActionStep t1 t2 (join_dot segments) schema input r)))"
  by pat_completeness auto
termination
  by (relation "measure (\<lambda>(t1, t2, actionPath, schema, input, r). length actionPath)")
     (auto simp: split_dot_length_rest)

declare startActionStep.simps [simp del]

definition startActionPathsStep ::
  "timestamp \<Rightarrow> timestamp \<Rightarrow> action_schema \<Rightarrow> path list \<Rightarrow> run \<Rightarrow> run" where
  "startActionPathsStep t1 t2 schema paths r =
     r\<lparr>steps := steps r @
          [PathsStep \<lparr>ps_name = name schema, ps_service = service schema, ps_action = action schema\<rparr>
             t1 None paths],
       updatedAt := t2\<rparr>"

text \<open>\<^verbatim>\<open>if ('output' in step) step.output = v\<close>, \<^verbatim>\<open>if ('error' in step) step.error = e\<close>,
  \<^verbatim>\<open>step.finishedAt = ...\<close>.\<close>

fun set_output :: "json \<Rightarrow> step \<Rightarrow> step" where
  "set_output v (ActionStep sch inp out err st fin) =
     ActionStep sch inp (if has_key out then Present v else out) err st fin"
| "set_output v (PathsStep sch st fin ps) = PathsStep sch st fin ps"

fun set_error :: "error \<Rightarrow> step \<Rightarrow> step" where
  "set_error e (ActionStep sch inp out err st fin) =
     ActionStep sch inp out (if has_key err then Present e else err) st fin"
| "set_error e (PathsStep sch st fin ps) = PathsStep sch st fin ps"

fun set_finishedAt :: "timestamp \<Rightarrow> step \<Rightarrow> step" where
  "set_finishedAt t (ActionStep sch inp out err st fin) = ActionStep sch inp out err st (Some t)"
| "set_finishedAt t (PathsStep sch st fin ps) = PathsStep sch st (Some t) ps"

definition successActionStep ::
  "timestamp \<Rightarrow> timestamp \<Rightarrow> string \<Rightarrow> json \<Rightarrow> run \<Rightarrow> error + run" where
  "successActionStep t1 t2 actionPath output r =
     (case getActionOrPathsStepOrThrow r actionPath of
        Inl e \<Rightarrow> Inl e
      | Inr step \<Rightarrow>
          Inr ((modifyStep (\<lambda>s. set_finishedAt t1 (set_output output s)) r actionPath None)
                 \<lparr>updatedAt := t2\<rparr>))"

definition filterActionStep ::
  "timestamp \<Rightarrow> timestamp \<Rightarrow> string \<Rightarrow> json \<Rightarrow> run \<Rightarrow> error + run" where
  "filterActionStep t1 t2 actionPath result r =
     (if status r = playing
      then (case getActionOrPathsStepOrThrow r actionPath of
              Inl e \<Rightarrow> Inl e
            | Inr step \<Rightarrow>
                Inr ((modifyStep (\<lambda>s. set_finishedAt t1 (set_output result s)) r actionPath None)
                       \<lparr>updatedAt := t2, status := filtered\<rparr>))
      else Inr r)"

definition stopActionStep ::
  "timestamp \<Rightarrow> timestamp \<Rightarrow> string \<Rightarrow> error \<Rightarrow> run \<Rightarrow> error + run" where
  "stopActionStep t1 t2 actionPath e r =
     (if status r = playing \<or> status r = filtered
      then (case getActionOrPathsStep r actionPath None of
              Inl thrown \<Rightarrow> Inl thrown
            | Inr None \<Rightarrow> Inr (r\<lparr>updatedAt := t2, status := stopped\<rparr>)
            | Inr (Some step) \<Rightarrow>
                Inr ((modifyStep (\<lambda>s. set_finishedAt t1 (set_error e s)) r actionPath None)
                       \<lparr>updatedAt := t2, status := stopped\<rparr>))
      else Inr r)"

definition runSucceed :: "run \<Rightarrow> run" where
  "runSucceed r = (if status r = playing then r\<lparr>status := success\<rparr> else r)"

text \<open>\<^verbatim>\<open>isStepExecutedWithSuccess(actionPath)\<close>, with the order of its tests.\<close>

definition isStepExecutedWithSuccess :: "run \<Rightarrow> string \<Rightarrow> error + bool" where
  "isStepExecutedWithSuccess r actionPath =
     (case getActionOrPathsStep r actionPath None of
        Inl e \<Rightarrow> Inl e
      | Inr None \<Rightarrow> Inr False
      | Inr (Some (ActionStep sch inp out err st fin)) \<Rightarrow>
          Inr (if has_key err then \<not> is_defined err
               else if has_key out then (case out of Present v \<Rightarrow> truthy v | _ \<Rightarrow> False)
               else True)
      | Inr (Some (PathsStep sch st fin ps)) \<Rightarrow>
          Inr (\<not> list_ex (\<lambda>p. list_ex step_error_truthy (actions p)) ps))"

text \<open>
  \<^verbatim>\<open>getErrorMessage()\<close>: the inner \<^verbatim>\<open>getError\<close> loops over the steps; at a paths step it
  returns the result of the search in the flattened actions of its paths.
\<close>

lemma size_actions_concat:
  "size_list size (concat (map actions ps)) \<le> size_list size ps"
proof (induction ps)
  case Nil
  show ?case by simp
next
  case (Cons p ps)
  then show ?case by (cases p) (simp add: size_list_append)
qed

function getError :: "step list \<Rightarrow> error option" where
  "getError [] = None"
| "getError (PathsStep sch st fin ps # rest) = getError (concat (map actions ps))"
| "getError (ActionStep sch inp out err st fin # rest) =
     (case err of Present e \<Rightarrow> Some e | _ \<Rightarrow> getError rest)"
  by pat_completeness auto
termination
proof (relation "measure (size_list size)")
  show "wf (measure (size_list (size :: step \<Rightarrow> nat)))" by simp
next
  fix sch st fin ps rest
  show "(concat (map actions ps), PathsStep sch st fin ps # rest) \<in> measure (size_list size)"
    using size_actions_concat [of ps] by simp
next
  fix sch inp out err st fin rest
  show "(rest, ActionStep sch inp out err st fin # rest) \<in> measure (size_list size)"
    by simp
qed simp_all

definition getErrorMessage :: "run \<Rightarrow> string option" where
  "getErrorMessage r = map_option message (getError (steps r))"

text \<open>
  \<^verbatim>\<open>getStepsOutput()\<close>: the two \<^verbatim>\<open>reduce\<close> loops, each with its accumulator.
  \<^verbatim>\<open>step.output ?? {}\<close> replaces a missing, undefined or null output by the empty object
  (every action schema has an \<^verbatim>\<open>action\<close> property). An object is the list of its
  keys and values in the order of the first assignment of each key; the place that
  JavaScript gives to keys that read as integers when it enumerates an object is not
  modelled, and no statement below depends on the order of keys.
\<close>

fun nullish_output :: "json field \<Rightarrow> json" where
  "nullish_output (Present v) = (if v = JNull then JObj [] else v)"
| "nullish_output f = JObj []"

fun buildOutput :: "(string \<times> json) list \<Rightarrow> step list \<Rightarrow> (string \<times> json) list"
  and buildPaths :: "(string \<times> json) list \<Rightarrow> path list \<Rightarrow> (string \<times> json) list" where
  "buildOutput acc [] = acc"
| "buildOutput acc (PathsStep sch st fin ps # rest) =
     buildOutput (AList.update (ps_name sch) (JObj (buildPaths [] ps)) acc) rest"
| "buildOutput acc (ActionStep sch inp out err st fin # rest) =
     buildOutput (AList.update (name sch) (nullish_output out) acc) rest"
| "buildPaths acc [] = acc"
| "buildPaths acc (Path sch inp out acts # rest) =
     buildPaths (AList.update (path_name sch) (JObj (buildOutput [] acts)) acc) rest"

definition getStepsOutput :: "run \<Rightarrow> json" where
  "getStepsOutput r =
     JObj (AList.update ''trigger'' (trigger_output r) (buildOutput [] (steps r)))"

section \<open>The step tree as objects of a store\<close>

text \<open>
  A run holds its steps by reference. In the store every step, every path and the trigger
  step is an object at an address, and the arrays \<^verbatim>\<open>steps\<close>, \<^verbatim>\<open>paths\<close> and
  \<^verbatim>\<open>actions\<close> hold the addresses of their elements. A write through a reference changes
  the object at one address; two runs share mutable state when an address is reached from
  both.
\<close>

type_synonym addr = nat

datatype obj =
    TriggerObj json
  | ActionObj action_schema json "json field" "error field" timestamp "timestamp option"
  | PathsObj paths_step_schema timestamp "timestamp option" "addr list"
  | PathObj path_schema json json "addr list"

type_synonym store = "addr \<Rightarrow> obj option"

text \<open>The references of a run: its trigger step and the rest of its \<^verbatim>\<open>steps\<close> array.\<close>

record run_refs =
  trigger_ref :: addr
  step_refs :: "addr list"

text \<open>
  The object at an address holds a given step, with every object of the step at an
  address from \<open>lo\<close> up to, but not including, \<open>hi\<close>.
\<close>

fun step_in :: "store \<Rightarrow> addr \<Rightarrow> addr \<Rightarrow> addr \<Rightarrow> step \<Rightarrow> bool"
  and path_in :: "store \<Rightarrow> addr \<Rightarrow> addr \<Rightarrow> addr \<Rightarrow> path \<Rightarrow> bool"
  and steps_in :: "store \<Rightarrow> addr \<Rightarrow> addr \<Rightarrow> addr list \<Rightarrow> step list \<Rightarrow> bool"
  and paths_in :: "store \<Rightarrow> addr \<Rightarrow> addr \<Rightarrow> addr list \<Rightarrow> path list \<Rightarrow> bool" where
  "step_in h lo hi a (ActionStep sch inp out err st fin) =
     (lo \<le> a \<and> a < hi \<and> h a = Some (ActionObj sch inp out err st fin))"
| "step_in h lo hi a (PathsStep sch st fin ps) =
     (lo \<le> a \<and> a < hi \<and>
      (case h a of
         Some (PathsObj sch' st' fin' refs) \<Rightarrow>
           sch' = sch \<and> st' = st \<and> fin' = fin \<and> paths_in h lo hi refs ps
       | _ \<Rightarrow> False))"
| "path_in h lo hi a (Path sch inp out acts) =
     (lo \<le> a \<and> a < hi \<and>
      (case h a of
         Some (PathObj sch' inp' out' refs) \<Rightarrow>
           sch' = sch \<and> inp' = inp \<and> out' = out \<and> steps_in h lo hi refs acts
       | _ \<Rightarrow> False))"
| "steps_in h lo hi [] [] = True"
| "steps_in h lo hi (a # refs) (s # ss) = (step_in h lo hi a s \<and> steps_in h lo hi refs ss)"
| "steps_in h lo hi [] (s # ss) = False"
| "steps_in h lo hi (a # refs) [] = False"
| "paths_in h lo hi [] [] = True"
| "paths_in h lo hi (a # refs) (q # qs) = (path_in h lo hi a q \<and> paths_in h lo hi refs qs)"
| "paths_in h lo hi [] (q # qs) = False"
| "paths_in h lo hi (a # refs) [] = False"

definition run_in :: "store \<Rightarrow> addr \<Rightarrow> addr \<Rightarrow> run_refs \<Rightarrow> run \<Rightarrow> bool" where
  "run_in h lo hi refs r =
     (lo \<le> trigger_ref refs \<and> trigger_ref refs < hi \<and>
      h (trigger_ref refs) = Some (TriggerObj (trigger_output r)) \<and>
      steps_in h lo hi (step_refs refs) (steps r))"

text \<open>
  \<^verbatim>\<open>JSON.parse\<close> builds the value it reads from new objects. The allocator hands out the
  next free address; the result is the address of the new object, or the addresses of the
  new array's elements, with the store and the next free address after the call.
\<close>

fun new_step :: "step \<Rightarrow> store \<Rightarrow> addr \<Rightarrow> addr \<times> store \<times> addr"
  and new_path :: "path \<Rightarrow> store \<Rightarrow> addr \<Rightarrow> addr \<times> store \<times> addr"
  and new_steps :: "step list \<Rightarrow> store \<Rightarrow> addr \<Rightarrow> addr list \<times> store \<times> addr"
  and new_paths :: "path list \<Rightarrow> store \<Rightarrow> addr \<Rightarrow> addr list \<times> store \<times> addr" where
  "new_step (ActionStep sch inp out err st fin) h n =
     (n, h(n \<mapsto> ActionObj sch inp out err st fin), Suc n)"
| "new_step (PathsStep sch st fin ps) h n =
     (case new_paths ps h n of
        (refs, h', n') \<Rightarrow> (n', h'(n' \<mapsto> PathsObj sch st fin refs), Suc n'))"
| "new_path (Path sch inp out acts) h n =
     (case new_steps acts h n of
        (refs, h', n') \<Rightarrow> (n', h'(n' \<mapsto> PathObj sch inp out refs), Suc n'))"
| "new_steps [] h n = ([], h, n)"
| "new_steps (s # ss) h n =
     (case new_step s h n of
        (a, h', n') \<Rightarrow>
          (case new_steps ss h' n' of
             (refs, h'', n'') \<Rightarrow> (a # refs, h'', n'')))"
| "new_paths [] h n = ([], h, n)"
| "new_paths (q # qs) h n =
     (case new_path q h n of
        (a, h', n') \<Rightarrow>
          (case new_paths qs h' n' of
             (refs, h'', n'') \<Rightarrow> (a # refs, h'', n'')))"

text \<open>
  \<^verbatim>\<open>clone()\<close> on the store. \<^verbatim>\<open>JSON.stringify(this.steps)\<close> writes the text of the steps
  the run holds, without the properties whose value is \<^verbatim>\<open>undefined\<close>, and
  \<^verbatim>\<open>JSON.parse\<close> builds a new object for the trigger step and for every step and path of
  that text.
\<close>

definition clone_refs :: "run \<Rightarrow> store \<Rightarrow> addr \<Rightarrow> run_refs \<times> store \<times> addr" where
  "clone_refs r h n =
     (case new_steps (map json_step (steps r)) (h(n \<mapsto> TriggerObj (trigger_output r))) (Suc n) of
        (refs, h', n') \<Rightarrow> (\<lparr>trigger_ref = n, step_refs = refs\<rparr>, h', n'))"

section \<open>The environment of the use cases\<close>

text \<open>
  The run repository records the calls it receives, in order, each with the state of the run
  at that moment. The alerting collaborator records \<^verbatim>\<open>sendAlertEmail(run, automation, message)\<close>.
  The clock is logical: one tick for each \<^verbatim>\<open>new Date()\<close>. \<^verbatim>\<open>crypto.randomUUID()\<close> draws from
  a supply. Log calls have no effect on a run and are left out; repository and alerting calls
  are taken not to throw.
\<close>

datatype repo_event = Update run | Create run

record world =
  clock :: timestamp
  next_uuid :: uuid
  repo :: "repo_event list"
  alerts :: "(run \<times> string) list"

definition ticks :: "nat \<Rightarrow> world \<Rightarrow> world" where
  "ticks n w = w\<lparr>clock := clock w + n\<rparr>"

definition runRepository_update :: "run \<Rightarrow> world \<Rightarrow> world" where
  "runRepository_update r w = w\<lparr>repo := repo w @ [Update r]\<rparr>"

definition runRepository_create :: "run \<Rightarrow> world \<Rightarrow> world" where
  "runRepository_create r w = w\<lparr>repo := repo w @ [Create r]\<rparr>"

definition sendAlertEmail :: "run \<Rightarrow> string \<Rightarrow> world \<Rightarrow> world" where
  "sendAlertEmail r msg w = w\<lparr>alerts := alerts w @ [(r, msg)]\<rparr>"

text \<open>
  \<^verbatim>\<open>crypto.randomUUID()\<close>: the next id of the supply, which is then used up. The ids
  drawn so far are those below \<open>next_uuid\<close>.
\<close>

definition randomUUID :: "world \<Rightarrow> uuid \<times> world" where
  "randomUUID w = (next_uuid w, w\<lparr>next_uuid := Suc (next_uuid w)\<rparr>)"

text \<open>
  Modelled from the spec: \<^verbatim>\<open>ActionResult\<close> is declared outside the sources; it is
  \<^verbatim>\<open>{ data }\<close> or \<^verbatim>\<open>{ error }\<close>.
\<close>

datatype ActionResult = Data json | Failed error

text \<open>
  Modelled from the spec: the repositories and the filter use case are outside the sources.
  The collaborators of the dispatcher are functions; \<open>Inl\<close> is a thrown \<^verbatim>\<open>Error\<close>.
  \<open>fillSchema\<close> is the template evaluator, \<open>runFilter\<close> is \<^verbatim>\<open>RunFilterUseCase.execute\<close>,
  \<open>runService\<close> stands for the code, http and database services called with the filled
  input (a table that is not found is one of its throws), \<open>findConnection\<close> and
  \<open>runIntegration\<close> are those of the integrations.
\<close>

record collab =
  fillSchema :: "params \<Rightarrow> json \<Rightarrow> error + json"
  runFilter :: "json \<Rightarrow> run \<Rightarrow> error + json"
  runService :: "action_schema \<Rightarrow> json \<Rightarrow> error + json"
  findConnection :: "string \<Rightarrow> bool"
  runIntegration :: "action_schema \<Rightarrow> json \<Rightarrow> error + ActionResult"

section \<open>The action dispatcher\<close>

text \<open>
  \<^verbatim>\<open>String(error)\<close> of a thrown \<^verbatim>\<open>Error\<close>: the name \<^verbatim>\<open>Error\<close> alone when the
  message is empty, otherwise the name, a colon and the message. Thrown values are taken to
  be instances of \<^verbatim>\<open>Error\<close> itself; an instance of a subclass prints its own name.
\<close>

definition String_error :: "error \<Rightarrow> string" where
  "String_error e = (if message e = [] then ''Error'' else ''Error: '' @ message e)"

definition caught_output :: "error \<Rightarrow> json" where
  "caught_output e =
     JObj [(''canContinue'', JBool False), (''error'', JStr (String_error e))]"

text \<open>
  The loop of the split-into-paths case over the declared paths, with its two accumulators
  \<^verbatim>\<open>paths\<close> and \<^verbatim>\<open>pathsSteps\<close>. The body of the \<^verbatim>\<open>try\<close> is the template evaluation of the
  path's filter followed by the filter use case; either may throw.
\<close>

definition try_path :: "collab \<Rightarrow> run \<Rightarrow> path_schema \<Rightarrow> error + (json \<times> json)" where
  "try_path C r p =
     (case fillSchema C (Object (path_filter p)) (getStepsOutput r) of
        Inl e \<Rightarrow> Inl e
      | Inr flt \<Rightarrow>
          (case runFilter C flt r of
             Inl e \<Rightarrow> Inl e
           | Inr result \<Rightarrow> Inr (flt, result)))"

fun split_loop ::
  "collab \<Rightarrow> run \<Rightarrow> path_schema list \<Rightarrow> (string \<times> json) list \<Rightarrow> path list
     \<Rightarrow> (string \<times> json) list \<times> path list" where
  "split_loop C r [] paths pathsSteps = (paths, pathsSteps)"
| "split_loop C r (p # rest) paths pathsSteps =
     (case try_path C r p of
        Inr (flt, result) \<Rightarrow>
          split_loop C r rest
            (AList.update (path_name p) result paths)
            (pathsSteps @ [Path p flt result []])
      | Inl e \<Rightarrow>
          split_loop C r rest
            (AList.update (path_name p) (caught_output e) paths)
            (pathsSteps @ [Path p (path_filter p) (caught_output e) []]))"

text \<open>
  \<^verbatim>\<open>fillInputData\<close>: resolves the parameters against the outputs so far, records the started
  step and persists the run. The result carries the run and the world as the call left them,
  also when it throws.
\<close>

definition fillInputData ::
  "collab \<Rightarrow> params \<Rightarrow> string \<Rightarrow> action_schema \<Rightarrow> run \<Rightarrow> world \<Rightarrow> (error + json) \<times> run \<times> world" where
  "fillInputData C inputData actionPath act r w =
     (case fillSchema C inputData (getStepsOutput r) of
        Inl e \<Rightarrow> (Inl e, r, w)
      | Inr inputDataFilled \<Rightarrow>
          (case startActionStep (clock w) (Suc (clock w)) actionPath act inputDataFilled r of
             Inl e \<Rightarrow> (Inl e, r, w)
           | Inr r' \<Rightarrow> (Inr inputDataFilled, r', runRepository_update r' (ticks 2 w))))"

text \<open>\<^verbatim>\<open>if (!data) data = {}\<close>.\<close>

definition or_empty :: "json \<Rightarrow> json" where
  "or_empty data = (if truthy data then data else JObj [])"

text \<open>
  The body of the \<^verbatim>\<open>try\<close> of \<^verbatim>\<open>RunActionUseCase.execute\<close>: the switch over service and
  action. The code, http get/post and database cases fill the input and call their service;
  a known service with an unknown action reaches the throwing default of its inner switch.
\<close>

definition dispatch ::
  "collab \<Rightarrow> action_schema \<Rightarrow> string \<Rightarrow> run \<Rightarrow> world \<Rightarrow> (error + ActionResult) \<times> run \<times> world" where
  "dispatch C act actionPath r w =
     (if service act = ''filter'' \<and> action act = ''split-into-paths'' then
        (case params act of
           Object v \<Rightarrow> (Inl (Error ''action.params is not iterable''), r, w)
         | PathList declared \<Rightarrow>
             (case split_loop C r declared [] [] of
                (paths, pathsSteps) \<Rightarrow>
                  (let r' = startActionPathsStep (clock w) (Suc (clock w)) act pathsSteps r
                   in (Inr (Data (or_empty (JObj paths))), r', runRepository_update r' (ticks 2 w)))))
      else if service act = ''filter'' \<and> action act = ''only-continue-if'' then
        (case fillInputData C (params act) actionPath act r w of
           (Inl e, r', w') \<Rightarrow> (Inl e, r', w')
         | (Inr filled, r', w') \<Rightarrow>
             (case runFilter C filled r' of
                Inl e \<Rightarrow> (Inl e, r', w')
              | Inr data \<Rightarrow> (Inr (Data (or_empty data)), r', w')))
      else if service act = ''http'' \<and> action act = ''response'' then
        (case fillInputData C (params act) actionPath act r w of
           (Inl e, r', w') \<Rightarrow> (Inl e, r', w')
         | (Inr filled, r', w') \<Rightarrow> (Inr (Data (or_empty filled)), r', w'))
      else if (service act = ''code'' \<and> action act \<in> {''run-typescript'', ''run-javascript''})
            \<or> (service act = ''http'' \<and> action act \<in> {''get'', ''post''})
            \<or> (service act = ''database'' \<and> action act = ''create-record'') then
        (case fillInputData C (params act) actionPath act r w of
           (Inl e, r', w') \<Rightarrow> (Inl e, r', w')
         | (Inr filled, r', w') \<Rightarrow>
             (case runService C act filled of
                Inl e \<Rightarrow> (Inl e, r', w')
              | Inr data \<Rightarrow> (Inr (Data (or_empty data)), r', w')))
      else if service act \<in> {''code'', ''http'', ''filter'', ''database''} then
        (Inl (Error ''Unhandled case: [object Object]''), r, w)
      else if \<not> findConnection C (account act) then
        (Inl (Error (''Connection not found for account '' @ account act)), r, w)
      else
        (case fillInputData C (params act) actionPath act r w of
           (Inl e, r', w') \<Rightarrow> (Inl e, r', w')
         | (Inr filled, r', w') \<Rightarrow>
             (case runIntegration C act filled of
                Inl e \<Rightarrow> (Inl e, r', w')
              | Inr res \<Rightarrow> (Inr res, r', w'))))"

text \<open>\<^verbatim>\<open>RunActionUseCase.execute\<close>: a throw of the body becomes \<^verbatim>\<open>{ error: { message } }\<close>.\<close>

definition execute_action ::
  "collab \<Rightarrow> action_schema \<Rightarrow> string \<Rightarrow> run \<Rightarrow> world \<Rightarrow> ActionResult \<times> run \<times> world" where
  "execute_action C act actionPath r w =
     (case dispatch C act actionPath r w of
        (Inl e, r', w') \<Rightarrow> (Failed (Error (message e)), r', w')
      | (Inr res, r', w') \<Rightarrow> (res, r', w'))"

section \<open>The automation orchestrator\<close>

text \<open>Property reads on JSON values: \<^verbatim>\<open>v[k]\<close> is \<^verbatim>\<open>undefined\<close> (\<open>None\<close>) where \<open>v\<close> has no such key.\<close>

fun get_prop :: "string \<Rightarrow> json \<Rightarrow> json option" where
  "get_prop k (JObj kvs) = map_of kvs k"
| "get_prop k v = None"

text \<open>
  \<^verbatim>\<open>'canContinue' in data && !data.canContinue\<close>. The \<^verbatim>\<open>in\<close> operator throws a TypeError
  on a value that is not an object; an array has no such key.
\<close>

fun canContinue_falsy :: "json \<Rightarrow> error + bool" where
  "canContinue_falsy (JObj kvs) =
     Inr (case map_of kvs ''canContinue'' of None \<Rightarrow> False | Some v \<Rightarrow> \<not> truthy v)"
| "canContinue_falsy (JArr xs) = Inr False"
| "canContinue_falsy v = Inl (Error ''Cannot use in operator to search for canContinue'')"

text \<open>
  \<^verbatim>\<open>result && typeof result === 'object' && 'canContinue' in result && result.canContinue === true\<close>
\<close>

fun canContinue_true :: "json option \<Rightarrow> bool" where
  "canContinue_true (Some (JObj kvs)) = (map_of kvs ''canContinue'' = Some (JBool True))"
| "canContinue_true v = False"

text \<open>
  \<^verbatim>\<open>{ ...v }\<close>: the own enumerable properties of \<open>v\<close>. An array or a string spreads its
  elements under their decimal indices; null, booleans and numbers spread to nothing.
\<close>

fun show_nat :: "nat \<Rightarrow> string" where
  "show_nat n =
     (if n < 10 then [char_of (48 + n)]
      else show_nat (n div 10) @ [char_of (48 + n mod 10)])"

declare show_nat.simps [simp del]

fun spread :: "json \<Rightarrow> (string \<times> json) list" where
  "spread (JObj kvs) = kvs"
| "spread (JArr xs) = zip (map show_nat [0..<length xs]) xs"
| "spread (JStr s) = zip (map show_nat [0..<length s]) (map (\<lambda>c. JStr [c]) s)"
| "spread v = []"

text \<open>\<^verbatim>\<open>{ ...data[i], index: i + 1 }\<close>\<close>

definition with_index :: "json \<Rightarrow> nat \<Rightarrow> json" where
  "with_index d i = JObj (AList.update ''index'' (JNum (int i + 1)) (spread d))"

text \<open>
  \<^verbatim>\<open>pathName ? pathName + '.' + action.name : action.name\<close>; an absent and an empty
  \<^verbatim>\<open>pathName\<close> are both falsy.
\<close>

definition action_path :: "string option \<Rightarrow> string \<Rightarrow> string" where
  "action_path pathName n =
     (case pathName of
        None \<Rightarrow> n
      | Some pn \<Rightarrow> if pn \<noteq> [] then pn @ ''.'' @ n else n)"

text \<open>
  The private methods \<^verbatim>\<open>stop\<close> and \<^verbatim>\<open>filter\<close>. The first component of the result is the
  error thrown, if any; a throw of the run's method leaves run and world as they were.
  \<open>stopActionStep\<close> reads the clock twice when it finds the step and once when it does not.
\<close>

definition stop :: "string \<Rightarrow> error \<Rightarrow> run \<Rightarrow> world \<Rightarrow> error option \<times> run \<times> world" where
  "stop actionPath e r w =
     (let msg = ''action \"'' @ actionPath @ ''\" stopped with error: '' @ message e;
          found = (case getActionOrPathsStep r actionPath None of
                     Inr (Some s) \<Rightarrow> True | _ \<Rightarrow> False);
          n = (if status r = playing \<or> status r = filtered then (if found then 2 else 1) else 0)
      in case stopActionStep (clock w) (if found then Suc (clock w) else clock w) actionPath e r of
           Inl thrown \<Rightarrow> (Some thrown, r, w)
         | Inr r' \<Rightarrow> (None, r', sendAlertEmail r' msg (runRepository_update r' (ticks n w))))"

definition filterRun :: "string \<Rightarrow> json \<Rightarrow> run \<Rightarrow> world \<Rightarrow> error option \<times> run \<times> world" where
  "filterRun actionPath data r w =
     (case filterActionStep (clock w) (Suc (clock w)) actionPath data r of
        Inl thrown \<Rightarrow> (Some thrown, r, w)
      | Inr r' \<Rightarrow>
          (None, r', runRepository_update r' (ticks (if status r = playing then 2 else 0) w)))"

text \<open>A call that ends \<^verbatim>\<open>runAction\<close> with \<^verbatim>\<open>return false\<close>, unless it throws.\<close>

fun returning_false :: "error option \<times> run \<times> world \<Rightarrow> (error + bool) \<times> run \<times> world" where
  "returning_false (Some thrown, r, w) = (Inl thrown, r, w)"
| "returning_false (None, r, w) = (Inr False, r, w)"

text \<open>
  The loop of the multi-item branch, from index \<open>i\<close> on: the first item is recorded on the
  run, which is updated; every later item is recorded on a clone of the run as it is then,
  and the clone is created in the repository.
\<close>

fun fanout :: "string \<Rightarrow> json list \<Rightarrow> nat \<Rightarrow> run \<Rightarrow> world \<Rightarrow> error option \<times> run \<times> world" where
  "fanout actionPath [] i r w = (None, r, w)"
| "fanout actionPath (d # ds) i r w =
     (if i = 0 then
        (case successActionStep (clock w) (Suc (clock w)) actionPath (with_index d i) r of
           Inl thrown \<Rightarrow> (Some thrown, r, w)
         | Inr r' \<Rightarrow> fanout actionPath ds (Suc i) r' (runRepository_update r' (ticks 2 w)))
      else
        (case randomUUID w of
           (u, w1) \<Rightarrow>
             (case successActionStep (clock w1) (Suc (clock w1)) actionPath (with_index d i)
                     (clone u r) of
                Inl thrown \<Rightarrow> (Some thrown, r, w1)
              | Inr newRun \<Rightarrow>
                  fanout actionPath ds (Suc i) r (runRepository_create newRun (ticks 2 w1)))))"

text \<open>
  \<^verbatim>\<open>executePaths\<close>. The recursive call \<^verbatim>\<open>this.execute(app, run, automation, nextPathName)\<close>
  is the parameter \<open>exec\<close>: it returns the error it throws, if any, with the run and the
  world it leaves. The accumulator is \<^verbatim>\<open>pathFailureError\<close>, set by the first failing path.
\<close>

type_synonym exec = "string \<Rightarrow> run \<Rightarrow> world \<Rightarrow> error option \<times> run \<times> world"

fun executePaths_loop ::
  "exec \<Rightarrow> string \<Rightarrow> string option \<Rightarrow> json \<Rightarrow> path_schema list \<Rightarrow> error option \<Rightarrow> run \<Rightarrow> world
     \<Rightarrow> error option \<times> run \<times> world" where
  "executePaths_loop ex schemaName pathName data [] failure r w = (failure, r, w)"
| "executePaths_loop ex schemaName pathName data (p # rest) failure r w =
     (let nextPathName =
            (case pathName of None \<Rightarrow> [] | Some pn \<Rightarrow> if pn \<noteq> [] then pn @ ''.'' else [])
              @ schemaName @ ''.'' @ path_name p
      in if canContinue_true (get_prop (path_name p) data) then
           (case ex nextPathName r w of
              (None, r', w') \<Rightarrow> executePaths_loop ex schemaName pathName data rest failure r' w'
            | (Some e, r', w') \<Rightarrow>
                executePaths_loop ex schemaName pathName data rest
                  (case failure of
                     None \<Rightarrow> Some (Error (''Path failure: '' @ message e))
                   | Some f \<Rightarrow> Some f)
                  r' w')
         else executePaths_loop ex schemaName pathName data rest failure r w)"

definition executePaths ::
  "exec \<Rightarrow> action_schema \<Rightarrow> json \<Rightarrow> string option \<Rightarrow> run \<Rightarrow> world \<Rightarrow> error option \<times> run \<times> world" where
  "executePaths ex schema data pathName r w =
     (case params schema of
        Object v \<Rightarrow> (Some (Error ''schema.params is not iterable''), r, w)
      | PathList declared \<Rightarrow> executePaths_loop ex (name schema) pathName data declared None r w)"

text \<open>The checks of \<^verbatim>\<open>runAction\<close> on the recorded paths step, after the paths have run.\<close>

definition path_has_error :: "path \<Rightarrow> bool" where
  "path_has_error p = list_ex step_error_truthy (actions p)"

text \<open>
  \<^verbatim>\<open>step.paths.every((path) => path.output.canContinue === false)\<close>, path by path up to
  the first that is not stopped. Reading a property of \<^verbatim>\<open>null\<close> throws a TypeError,
  whose message is the engine's; a number, a string, a boolean or an array has no such
  property.
\<close>

fun all_paths_stopped :: "path list \<Rightarrow> error + bool" where
  "all_paths_stopped [] = Inr True"
| "all_paths_stopped (p # ps) =
     (if path_output p = JNull then
        Inl (Error ''Cannot read properties of null (reading canContinue)'')
      else if get_prop ''canContinue'' (path_output p) = Some (JBool False)
      then all_paths_stopped ps
      else Inr False)"

definition after_paths ::
  "string \<Rightarrow> json \<Rightarrow> run \<Rightarrow> world \<Rightarrow> (error + bool) \<times> run \<times> world" where
  "after_paths actionPath data r w =
     (case getActionOrPathsStep r actionPath None of
        Inl thrown \<Rightarrow> (Inl thrown, r, w)
      | Inr None \<Rightarrow> (Inr True, r, w)
      | Inr (Some (ActionStep sch inp out err st fin)) \<Rightarrow> (Inr True, r, w)
      | Inr (Some (PathsStep sch st fin ps)) \<Rightarrow>
          (case all_paths_stopped ps of
             Inl thrown \<Rightarrow> (Inl thrown, r, w)
           | Inr True \<Rightarrow> returning_false (filterRun actionPath data r w)
           | Inr False \<Rightarrow>
               if list_ex path_has_error ps then
                 (case find path_has_error ps of
                    None \<Rightarrow>
                      returning_false
                        (stop actionPath (Error ''Path failure in multi-step execution'') r w)
                  | Some failedPath \<Rightarrow>
                      (case find step_error_truthy (actions failedPath) of
                         Some (ActionStep fsch finp fout (Present fe) fstart ffin) \<Rightarrow>
                           returning_false
                             (stop actionPath
                                (Error (''Path failure in multi-step execution: '' @ message fe))
                                r w)
                       | _ \<Rightarrow>
                           returning_false
                             (stop actionPath (Error ''Path failure in multi-step execution'')
                                r w)))
               else (Inr True, r, w)))"

text \<open>
  \<^verbatim>\<open>runAction\<close>: \<open>Inr b\<close> is the boolean it returns, \<open>Inl\<close> an error that escapes it.
\<close>

definition runAction ::
  "collab \<Rightarrow> exec \<Rightarrow> action_schema \<Rightarrow> string option \<Rightarrow> run \<Rightarrow> world
     \<Rightarrow> (error + bool) \<times> run \<times> world" where
  "runAction C ex act pathName r w =
     (let actionPath = action_path pathName (name act)
      in case execute_action C act actionPath r w of
           (Failed e, r1, w1) \<Rightarrow> returning_false (stop actionPath e r1 w1)
         | (Data data, r1, w1) \<Rightarrow>
             (case (if service act = ''filter'' then canContinue_falsy data else Inr False) of
                Inl thrown \<Rightarrow> (Inl thrown, r1, w1)
              | Inr True \<Rightarrow> returning_false (filterRun actionPath data r1 w1)
              | Inr False \<Rightarrow>
                  (case data of
                     JArr items \<Rightarrow>
                       if items = [] then returning_false (filterRun actionPath data r1 w1)
                       else (case fanout actionPath items 0 r1 w1 of
                               (Some thrown, r2, w2) \<Rightarrow> (Inl thrown, r2, w2)
                             | (None, r2, w2) \<Rightarrow> (Inr True, r2, w2))
                   | _ \<Rightarrow>
                       (case successActionStep (clock w1) (Suc (clock w1)) actionPath data r1 of
                          Inl thrown \<Rightarrow> (Inl thrown, r1, w1)
                        | Inr r2 \<Rightarrow>
                            (let w2 = runRepository_update r2 (ticks 2 w1)
                             in if service act = ''filter'' \<and> action act = ''split-into-paths'' then
                                  (case executePaths ex act data pathName r2 w2 of
                                     (Some pathError, r3, w3) \<Rightarrow>
                                       returning_false
                                         (stop actionPath
                                            (Error (''Path failure in multi-step execution: ''
                                                      @ message pathError)) r3 w3)
                                   | (None, r3, w3) \<Rightarrow> after_paths actionPath data r3 w3)
                                else (Inr True, r2, w2))))))"

section \<open>The run as a call leaves it\<close>

text \<open>The run as a call leaves it: a call that throws has not written to it.\<close>

definition run_after :: "run \<Rightarrow> error + run \<Rightarrow> run" where
  "run_after r res = (case res of Inl thrown \<Rightarrow> r | Inr r' \<Rightarrow> r')"

section \<open>The claims in the words of the specification\<close>

text \<open>
  A step has a recorded error, in the sense of the specification, when a leaf action under
  it, at any depth, has one.
\<close>

fun has_nested_error :: "step \<Rightarrow> bool"
  and path_has_nested_error :: "path \<Rightarrow> bool" where
  "has_nested_error (ActionStep sch inp out err st fin) = is_defined err"
| "has_nested_error (PathsStep sch st fin ps) = list_ex path_has_nested_error ps"
| "path_has_nested_error (Path sch inp out acts) = list_ex has_nested_error acts"

text \<open>
  The steps on which the one-level test of the code and the specification's words agree: a
  paths step whose paths hold action steps only, and an action step that has its
  \<^verbatim>\<open>error\<close> property (as every step made by \<open>startActionStep\<close> has) or, lacking it,
  has no output or a truthy one.
\<close>

fun is_action :: "step \<Rightarrow> bool" where
  "is_action (ActionStep sch inp out err st fin) = True"
| "is_action (PathsStep sch st fin ps) = False"

fun flat_step :: "step \<Rightarrow> bool" where
  "flat_step (ActionStep sch inp out err st fin) =
     (has_key err \<or> \<not> has_key out \<or> (case out of Present v \<Rightarrow> truthy v | _ \<Rightarrow> False))"
| "flat_step (PathsStep sch st fin ps) = list_all (\<lambda>p. list_all is_action (actions p)) ps"

text \<open>
  The test as the code makes it, in the words of the amended claim: an action step is judged
  by its \<^verbatim>\<open>error\<close> property and, when it has lost that property, by the truthiness of
  its output; of a paths step only the action steps directly in the \<^verbatim>\<open>actions\<close> lists of
  its paths are inspected.
\<close>

definition direct_actions :: "path list \<Rightarrow> step list" where
  "direct_actions ps = filter is_action (concat (map actions ps))"

fun succeeded_one_level :: "step \<Rightarrow> bool" where
  "succeeded_one_level (ActionStep sch inp out err st fin) =
     (case err of
        Present e \<Rightarrow> False
      | Undefined \<Rightarrow> True
      | Absent \<Rightarrow> (case out of Absent \<Rightarrow> True | Undefined \<Rightarrow> False | Present v \<Rightarrow> truthy v))"
| "succeeded_one_level (PathsStep sch st fin ps) =
     list_all (\<lambda>a. \<not> has_nested_error a) (direct_actions ps)"

text \<open>
  The search for the first recorded error as the specification words it: depth first, in
  order, into every path of a paths step, and on to the steps that follow it.
\<close>

fun spec_getError :: "step list \<Rightarrow> error option"
  and spec_getError_paths :: "path list \<Rightarrow> error option" where
  "spec_getError [] = None"
| "spec_getError (ActionStep sch inp out err st fin # rest) =
     (case err of Present e \<Rightarrow> Some e | _ \<Rightarrow> spec_getError rest)"
| "spec_getError (PathsStep sch st fin ps # rest) =
     (case spec_getError_paths ps of Some e \<Rightarrow> Some e | None \<Rightarrow> spec_getError rest)"
| "spec_getError_paths [] = None"
| "spec_getError_paths (Path sch inp out acts # rest) =
     (case spec_getError acts of Some e \<Rightarrow> Some e | None \<Rightarrow> spec_getError_paths rest)"

text \<open>
  The entry the specification asks for a declared path: the filter evaluation's input and
  result, or, when the evaluation throws, the declared filter with
  \<^verbatim>\<open>{ canContinue: false, error }\<close>; no nested action yet.
\<close>

definition path_entry :: "collab \<Rightarrow> run \<Rightarrow> path_schema \<Rightarrow> path" where
  "path_entry C r p =
     (case try_path C r p of
        Inl e \<Rightarrow>
          Path p (path_filter p)
            (JObj [(''canContinue'', JBool False), (''error'', JStr (String_error e))]) []
      | Inr (flt, result) \<Rightarrow> Path p flt result [])"

text \<open>A step tree without a property whose value is \<^verbatim>\<open>undefined\<close>.\<close>

fun no_undefined :: "step \<Rightarrow> bool"
  and no_undefined_path :: "path \<Rightarrow> bool" where
  "no_undefined (ActionStep sch inp out err st fin) = (out \<noteq> Undefined \<and> err \<noteq> Undefined)"
| "no_undefined (PathsStep sch st fin ps) = list_all no_undefined_path ps"
| "no_undefined_path (Path sch inp out acts) = list_all no_undefined acts"

text \<open>The declared path an entry of a paths step was made for.\<close>

fun path_schema_of :: "path \<Rightarrow> path_schema" where
  "path_schema_of (Path sch inp out acts) = sch"

text \<open>
  The names of the paths of a paths step; an action step has none. A write keeps the shape
  of a step when it changes neither its name nor the names of its paths.
\<close>

fun path_names :: "step \<Rightarrow> string list option" where
  "path_names (ActionStep sch inp out err st fin) = None"
| "path_names (PathsStep sch st fin ps) = Some (map path_schema_name ps)"

definition keeps_shape :: "(step \<Rightarrow> step) \<Rightarrow> bool" where
  "keeps_shape f = (\<forall>s. schema_name (f s) = schema_name s \<and> path_names (f s) = path_names s)"

text \<open>The output recorded on the action step that the lookup of a path finds.\<close>

definition output_at :: "run \<Rightarrow> string \<Rightarrow> json option" where
  "output_at r p =
     (case getActionOrPathsStep r p None of
        Inr (Some (ActionStep sch inp (Present v) err st fin)) \<Rightarrow> Some v
      | _ \<Rightarrow> None)"

text \<open>
  The value that \<open>getStepsOutput\<close> writes under the name of a step, and under the name of
  a path.
\<close>

fun step_value :: "step \<Rightarrow> json" where
  "step_value (ActionStep sch inp out err st fin) = nullish_output out"
| "step_value (PathsStep sch st fin ps) = JObj (buildPaths [] ps)"

definition path_value :: "path \<Rightarrow> json" where
  "path_value q = JObj (buildOutput [] (actions q))"

text \<open>
  The read of a value along a list of keys, as a template reference
  \<^verbatim>\<open>a.p.c\<close> reads the result of \<open>getStepsOutput\<close>.
\<close>

fun prop_at :: "string list \<Rightarrow> json \<Rightarrow> json option" where
  "prop_at [] v = Some v"
| "prop_at (k # ks) v = (case get_prop k v of None \<Rightarrow> None | Some v' \<Rightarrow> prop_at ks v')"

text \<open>
  The entry of an action in the result of \<open>getStepsOutput\<close> is its own when nothing
  overwrites it: its name, and the names of the paths step and the path that hold it, occur
  once in their lists, and its top-level key is not \<^verbatim>\<open>trigger\<close>, under which the
  trigger's output is written last.
\<close>

definition one_named :: "string \<Rightarrow> step list \<Rightarrow> bool" where
  "one_named a ss = (length (filter (\<lambda>s. schema_name s = a) ss) \<le> 1)"

definition one_path_named :: "string \<Rightarrow> path list \<Rightarrow> bool" where
  "one_path_named pn ps = (length (filter (\<lambda>q. path_schema_name q = pn) ps) \<le> 1)"

fun unshadowed :: "run \<Rightarrow> string list \<Rightarrow> bool" where
  "unshadowed r [c] = (c \<noteq> ''trigger'' \<and> one_named c (steps r))"
| "unshadowed r [a, pn, c] =
     (a \<noteq> ''trigger'' \<and> one_named a (steps r) \<and>
      (case find_step a (steps r) of
         Some (PathsStep sch st fin ps) \<Rightarrow>
           one_path_named pn ps \<and>
           (case find_path pn ps of
              Some q \<Rightarrow> one_named c (actions q)
            | None \<Rightarrow> False)
       | _ \<Rightarrow> False))"
| "unshadowed r segs = False"

section \<open>Example values\<close>

text \<open>
  Small runs, schemas and collaborators on which the theorems below are evaluated. Example
  runs belong to automation 1 and were created at 5 and last updated at 7.
\<close>

definition http_schema :: "string \<Rightarrow> action_schema" where
  "http_schema n = \<lparr>name = n, service = ''http'', action = ''get'', account = [], params = Object JNull\<rparr>"

definition started :: "string \<Rightarrow> step" where
  "started n = ActionStep (http_schema n) JNull Undefined Undefined 0 None"

definition failed :: "string \<Rightarrow> string \<Rightarrow> step" where
  "failed n msg = ActionStep (http_schema n) JNull Undefined (Present (Error msg)) 0 (Some 1)"

definition branch :: "string \<Rightarrow> path list \<Rightarrow> step" where
  "branch n ps = PathsStep \<lparr>ps_name = n, ps_service = ''filter'', ps_action = ''split-into-paths''\<rparr> 0 None ps"

definition way :: "string \<Rightarrow> bool \<Rightarrow> step list \<Rightarrow> path" where
  "way n go acts =
     Path \<lparr>path_name = n, path_filter = JNull\<rparr> JNull (JObj [(''canContinue'', JBool go)]) acts"

definition run_with :: "RunStatus \<Rightarrow> step list \<Rightarrow> run" where
  "run_with st ss =
     \<lparr>automation_id = 1, trigger_output = JObj [], steps = ss, form_id = None, status = st,
      run_id = 0, createdAt = 5, updatedAt = 7, toReplay = False\<rparr>"

text \<open>A paths step whose only recorded error lies two levels down.\<close>

definition nested_run :: run where
  "nested_run =
     run_with stopped
       [branch ''a'' [way ''p'' True [branch ''b'' [way ''q'' True [failed ''c'' ''boom'']]]]]"

text \<open>
  A stopped run whose first step is a paths step without any recorded error, followed by an
  action step that failed with \<^verbatim>\<open>boom\<close>.
\<close>

definition sibling_run :: run where
  "sibling_run =
     run_with stopped [branch ''s'' [way ''p'' True [started ''a'']], failed ''b'' ''boom'']"

text \<open>A world whose clock reads 100, long after the example runs were created.\<close>

definition late_world :: world where
  "late_world = \<lparr>clock = 100, next_uuid = 9, repo = [], alerts = []\<rparr>"

text \<open>
  Example collaborators: templates resolve to themselves, the filter \<^verbatim>\<open>bad\<close> makes the
  filter use case throw, the filter \<^verbatim>\<open>yes\<close> lets a path continue and any other does not;
  a service returns its filled input.
\<close>

definition echo_collab :: collab where
  "echo_collab =
     \<lparr>fillSchema = (\<lambda>p out. case p of Object v \<Rightarrow> Inr v | PathList ps \<Rightarrow> Inr JNull),
      runFilter = (\<lambda>flt r. if flt = JStr ''bad'' then Inl (Error ''boom'')
                            else Inr (JObj [(''canContinue'', JBool (flt = JStr ''yes''))])),
      runService = (\<lambda>a v. Inr v),
      findConnection = (\<lambda>a. False),
      runIntegration = (\<lambda>a v. Inr (Data v))\<rparr>"

definition declared_path :: "string \<Rightarrow> string \<Rightarrow> path_schema" where
  "declared_path n flt = \<lparr>path_name = n, path_filter = JStr flt\<rparr>"

definition split_action :: "string \<Rightarrow> path_schema list \<Rightarrow> action_schema" where
  "split_action n ps =
     \<lparr>name = n, service = ''filter'', action = ''split-into-paths'', account = [],
      params = PathList ps\<rparr>"

definition fresh_world :: world where
  "fresh_world = \<lparr>clock = 10, next_uuid = 1, repo = [], alerts = []\<rparr>"

text \<open>An http action whose parameters are an array, which the example service returns.\<close>

definition items_action :: "string \<Rightarrow> json list \<Rightarrow> action_schema" where
  "items_action n items =
     \<lparr>name = n, service = ''http'', action = ''get'', account = [], params = Object (JArr items)\<rparr>"

text \<open>A stand-in for the execution of a path that does nothing and does not throw.\<close>

definition no_exec :: exec where
  "no_exec pathName r w = (None, r, w)"

lemmas example_defs = http_schema_def started_def failed_def branch_def way_def run_with_def

text \<open>
  A filtered run with a paths step that holds a failed action, and a store that holds it at
  the addresses 0 to 3.
\<close>

definition branch_run :: run where
  "branch_run = run_with filtered [branch ''s'' [way ''p'' True [failed ''a'' ''boom'']]]"

definition branch_store :: store where
  "branch_store =
     [0 \<mapsto> TriggerObj (JObj []),
      1 \<mapsto> ActionObj (http_schema ''a'') JNull Undefined (Present (Error ''boom'')) 0 (Some 1),
      2 \<mapsto> PathObj \<lparr>path_name = ''p'', path_filter = JNull\<rparr> JNull
             (JObj [(''canContinue'', JBool True)]) [1],
      3 \<mapsto> PathsObj \<lparr>ps_name = ''s'', ps_service = ''filter'', ps_action = ''split-into-paths''\<rparr>
             0 None [2]]"

definition branch_refs :: run_refs where
  "branch_refs = \<lparr>trigger_ref = 0, step_refs = [3]\<rparr>"

section \<open>Facts about dotted paths and the lookup\<close>

lemma split_dot_segments_dotfree: "s \<in> set (split_dot p) \<Longrightarrow> CHR ''.'' \<notin> set s"
proof (induction p arbitrary: s)
  case Nil
  then show ?case by simp
next
  case (Cons c cs)
  then show ?case
    using split_dot_nonempty [of cs]
    by (cases "split_dot cs") (auto split: if_splits)
qed

lemma split_dot_dotfree: "CHR ''.'' \<notin> set s \<Longrightarrow> split_dot s = [s]"
  by (induction s) auto

lemma split_dot_join_dot:
  "segs \<noteq> [] \<Longrightarrow> \<forall>s\<in>set segs. CHR ''.'' \<notin> set s \<Longrightarrow> split_dot (join_dot segs) = segs"
proof (induction segs rule: join_dot.induct)
  case 1
  then show ?case by simp
next
  case (2 s)
  then show ?case by (simp add: split_dot_dotfree)
next
  case (3 s t ss)
  have "split_dot (s @ CHR ''.'' # rest) = s # split_dot rest" if "CHR ''.'' \<notin> set s" for rest
    using that by (induction s) auto
  with 3 show ?case by simp
qed

lemma split_dot_head: "split_dot p = a # rest \<Longrightarrow> split_dot a = [a]"
  using split_dot_segments_dotfree [of a p] by (simp add: split_dot_dotfree)

lemma split_dot_rest:
  "split_dot p = a # pn # segs \<Longrightarrow> segs \<noteq> [] \<Longrightarrow> split_dot (join_dot segs) = segs"
  using split_dot_segments_dotfree [of _ p] by (simp add: split_dot_join_dot)

lemma getActionOrPathsStep_single:
  "split_dot p = [a] \<Longrightarrow>
   getActionOrPathsStep r p sa = Inr (find_step a (case sa of None \<Rightarrow> steps r | Some ss \<Rightarrow> ss))"
  by (subst getActionOrPathsStep.simps) simp

lemma getActionOrPathsStep_dotted:
  "split_dot p = a # pn # segs \<Longrightarrow>
   getActionOrPathsStep r p sa =
     (case find_step a (steps r) of
        None \<Rightarrow> Inr None
      | Some (ActionStep sch inp out err st fin) \<Rightarrow> Inr None
      | Some (PathsStep sch st fin ps) \<Rightarrow>
          (case find_path pn ps of
             None \<Rightarrow> Inl (Error ''Path step not found'')
           | Some path \<Rightarrow>
               if segs \<noteq> []
               then getActionOrPathsStep r (join_dot segs) (Some (actions path))
               else Inr (Some (PathsStep sch st fin ps))))"
  by (subst getActionOrPathsStep.simps)
     (simp add: getActionOrPathsStep_single [OF split_dot_head] split: option.splits step.splits)

section \<open>Facts about the write through a reference\<close>

lemma modifyStep_only_steps:
  "modifyStep f r actionPath ctx = r\<lparr>steps := steps (modifyStep f r actionPath ctx)\<rparr>"
proof (induction f r actionPath ctx rule: modifyStep.induct)
  case (1 f r actionPath ctx)
  show ?case
    apply (subst (1 2) modifyStep.simps)
    using 1
    apply (auto split: list.splits option.splits step.splits prod.splits)
    done
qed

lemma modifyStep_status: "status (modifyStep f r actionPath ctx) = status r"
  by (subst modifyStep_only_steps) simp

lemma modifyStep_single:
  "split_dot p = [a] \<Longrightarrow>
   modifyStep f r p ctx =
     (case ctx of
        None \<Rightarrow> r\<lparr>steps := update_first_step a f (steps r)\<rparr>
      | Some (b, pn) \<Rightarrow>
          r\<lparr>steps := update_first_step b (in_path pn (update_first_step a f)) (steps r)\<rparr>)"
  by (subst modifyStep.simps) simp

lemma modifyStep_dotted:
  "split_dot p = a # pn # segs \<Longrightarrow>
   modifyStep f r p ctx =
     (case find_step a (steps r) of
        None \<Rightarrow> r
      | Some (ActionStep sch inp out err st fin) \<Rightarrow> r
      | Some (PathsStep sch st fin ps) \<Rightarrow>
          (case find_path pn ps of
             None \<Rightarrow> r
           | Some path \<Rightarrow>
               if segs \<noteq> []
               then modifyStep f r (join_dot segs) (Some (a, pn))
               else r\<lparr>steps := update_first_step a f (steps r)\<rparr>))"
  by (subst modifyStep.simps) simp

lemma getActionOrPathsStepOrThrow_single:
  "split_dot p = [a] \<Longrightarrow>
   getActionOrPathsStepOrThrow r p =
     (case find_step a (steps r) of
        None \<Rightarrow> Inl (Error (''Action step \"'' @ p @ ''\" not found''))
      | Some s \<Rightarrow> Inr s)"
  by (simp add: getActionOrPathsStepOrThrow_def getActionOrPathsStep_single split: option.splits)

lemma startActionStep_single:
  "split_dot p = [a] \<Longrightarrow>
   startActionStep t1 t2 p schema input r =
     Inr (r\<lparr>steps := steps r @ [new_action_step t1 schema input], updatedAt := t2\<rparr>)"
  by (subst startActionStep.simps) simp

lemma startActionStep_dotted:
  "split_dot p = a # pn # segs \<Longrightarrow>
   startActionStep t1 t2 p schema input r =
     (case find_step a (steps r) of
        None \<Rightarrow> Inl (Error (''Action step \"'' @ a @ ''\" not found''))
      | Some (ActionStep sch inp out err st fin) \<Rightarrow> Inl (Error ''Action step not found'')
      | Some (PathsStep sch st fin ps) \<Rightarrow>
          (case find_path pn ps of
             None \<Rightarrow> Inl (Error ''Path step not found'')
           | Some path \<Rightarrow>
               if length segs < 2
               then Inr (r\<lparr>steps := update_first_step a
                              (in_path pn (\<lambda>acts. acts @ [new_action_step t1 schema input]))
                              (steps r),
                            updatedAt := t2\<rparr>)
               else startActionStep t1 t2 (join_dot segs) schema input r))"
  by (subst startActionStep.simps)
     (simp add: getActionOrPathsStepOrThrow_single [OF split_dot_head]
        split: option.splits step.splits)

lemmas path_eval =
  getActionOrPathsStep_single getActionOrPathsStep_dotted modifyStep_single modifyStep_dotted
  startActionStep_single startActionStep_dotted getActionOrPathsStepOrThrow_def

section \<open>The status state machine\<close>

text \<open>
  C3. \<open>filterActionStep\<close> leaves a run that is not playing exactly as it is, and changes
  the status only from playing, to filtered (and does so when it returns).
  \<open>stopActionStep\<close> leaves a run whose status
  is success (or stopped) as it is, and changes the status only from playing or filtered, to
  stopped. \<open>runSucceed\<close> changes the status only from playing, to success. So none of the
  three leaves success or stopped, and from filtered they reach filtered or stopped only;
  \<open>replaying\<close> is what returns a run to playing.
\<close>

theorem run_status_state_machine:
  "(status r \<noteq> playing \<longrightarrow> filterActionStep t1 t2 p res r = Inr r) \<and>
   (status (run_after r (filterActionStep t1 t2 p res r)) \<noteq> status r \<longrightarrow>
      status r = playing \<and> status (run_after r (filterActionStep t1 t2 p res r)) = filtered) \<and>
   (status r = success \<longrightarrow> stopActionStep t1 t2 p e r = Inr r) \<and>
   (status (run_after r (stopActionStep t1 t2 p e r)) \<noteq> status r \<longrightarrow>
      (status r = playing \<or> status r = filtered) \<and>
      status (run_after r (stopActionStep t1 t2 p e r)) = stopped) \<and>
   (status (runSucceed r) \<noteq> status r \<longrightarrow>
      status r = playing \<and> status (runSucceed r) = success) \<and>
   (status r = success \<or> status r = stopped \<longrightarrow>
      status (run_after r (filterActionStep t1 t2 p res r)) = status r \<and>
      status (run_after r (stopActionStep t1 t2 p e r)) = status r \<and>
      status (runSucceed r) = status r) \<and>
   (status r = filtered \<longrightarrow>
      status (run_after r (filterActionStep t1 t2 p res r)) = filtered \<and>
      (status (run_after r (stopActionStep t1 t2 p e r)) = filtered \<or>
       status (run_after r (stopActionStep t1 t2 p e r)) = stopped) \<and>
      status (runSucceed r) = filtered) \<and>
   (status r = playing \<longrightarrow> status (runSucceed r) = success) \<and>
   (status r = playing \<and> filterActionStep t1 t2 p res r = Inr r' \<longrightarrow> status r' = filtered) \<and>
   ((status r = playing \<or> status r = filtered) \<and> stopActionStep t1 t2 p e r = Inr r'
      \<longrightarrow> status r' = stopped) \<and>
   status (replaying now r) = playing"
  by (auto simp: run_after_def filterActionStep_def stopActionStep_def runSucceed_def
        replaying_def modifyStep_status split: sum.splits option.splits)

theorem run_status_state_machine_witness:
  "status (run_with filtered [started ''b'']) = filtered \<and>
   filterActionStep 1 2 ''b'' JNull (run_with filtered [started ''b''])
     = Inr (run_with filtered [started ''b'']) \<and>
   status (run_after (run_with filtered [started ''b''])
            (stopActionStep 1 2 ''b'' (Error ''boom'') (run_with filtered [started ''b''])))
     = stopped \<and>
   status (runSucceed (run_with filtered [started ''b''])) = filtered \<and>
   status (runSucceed (run_with playing [started ''b''])) = success"
proof -
  let ?r = "run_with filtered [started ''b'']"
  have st: "status ?r = filtered" by (simp add: run_with_def)
  have changed:
    "status (run_after ?r (stopActionStep 1 2 ''b'' (Error ''boom'') ?r)) \<noteq> status ?r"
    by (simp add: run_after_def stopActionStep_def path_eval example_defs)
  have pl: "status (run_with playing [started ''b'']) = playing" by (simp add: run_with_def)
  show ?thesis
    using run_status_state_machine [where r = ?r and ?t1.0 = 1 and ?t2.0 = 2 and p = "''b''"
            and res = JNull and e = "Error ''boom''" and now = 0]
          run_status_state_machine [where r = "run_with playing [started ''b'']" and ?t1.0 = 1
            and ?t2.0 = 2 and p = "''b''" and res = JNull and e = "Error ''boom''" and now = 0]
          st changed pl
    by simp
qed

section \<open>Successful execution of a step\<close>

lemma action_children_errors:
  "list_all is_action acts \<Longrightarrow> list_ex step_error_truthy acts = list_ex has_nested_error acts"
proof (induction acts)
  case Nil
  show ?case by simp
next
  case (Cons a acts)
  then show ?case by (cases a) auto
qed

lemma flat_paths_errors:
  "list_all (\<lambda>p. list_all is_action (actions p)) ps \<Longrightarrow>
   list_ex (\<lambda>p. list_ex step_error_truthy (actions p)) ps = list_ex path_has_nested_error ps"
proof (induction ps)
  case Nil
  show ?case by simp
next
  case (Cons p ps)
  then show ?case by (cases p) (auto simp: action_children_errors)
qed

lemma getActionOrPathsStep_throws:
  "getActionOrPathsStep r p sa = Inl e \<Longrightarrow> e = Error ''Path step not found''"
proof (induction r p sa rule: getActionOrPathsStep.induct)
  case (1 r actionPath stepsArg)
  show ?case
  proof (cases "split_dot actionPath")
    case Nil
    with "1.prems" show ?thesis by (simp add: split_dot_nonempty)
  next
    case (Cons a rest)
    show ?thesis
    proof (cases rest)
      case Nil
      with Cons "1.prems" show ?thesis by (simp add: getActionOrPathsStep_single)
    next
      case (Cons pn segs)
      note sp = \<open>split_dot actionPath = a # rest\<close> [unfolded Cons]
      from "1.prems" show ?thesis
        unfolding getActionOrPathsStep_dotted [OF sp]
        using "1.IH"(2) [OF sp] getActionOrPathsStep_single [OF split_dot_head [OF sp], of r None]
        by (auto split: option.splits step.splits if_splits)
    qed
  qed
qed

lemma direct_errors:
  "list_ex (\<lambda>p. list_ex step_error_truthy (actions p)) ps =
   (\<not> list_all (\<lambda>a. \<not> has_nested_error a) (direct_actions ps))"
proof -
  have a: "step_error_truthy a = (is_action a \<and> has_nested_error a)" for a
    by (cases a) auto
  show ?thesis
    by (auto simp: direct_actions_def list_ex_iff list_all_iff a)
qed

lemma deep_clean_direct:
  "\<not> has_nested_error (PathsStep sch st fin ps) \<Longrightarrow> list_all (\<lambda>a. \<not> has_nested_error a) (direct_actions ps)"
proof -
  assume n: "\<not> has_nested_error (PathsStep sch st fin ps)"
  have "\<not> has_nested_error a" if "q \<in> set ps" "a \<in> set (actions q)" for q a
    using n that by (cases q) (auto simp: list_ex_iff)
  then show ?thesis by (auto simp: direct_actions_def list_all_iff)
qed

text \<open>
  C1 (amended). Whatever step the lookup of the path returns, \<open>isStepExecutedWithSuccess\<close>
  returns the one-level test on it: an action step succeeded when its error is unset (and,
  having lost its \<^verbatim>\<open>error\<close> property, when its output is absent or truthy), a paths
  step when no action step directly in one of its paths has a recorded error. On a step on
  which the one-level test suffices this is the absence of a recorded error at or under the
  step, and a paths step without any recorded error under it succeeded. When the lookup
  returns no step the result is false. The call throws only
  \<^verbatim>\<open>Path step not found\<close>, and does so when the second segment of a dotted path names no
  path of the paths step that the first segment names.
\<close>

theorem isStepExecutedWithSuccess_one_level:
  "(isStepExecutedWithSuccess r p = Inr True \<longleftrightarrow>
      (\<exists>found. getActionOrPathsStep r p None = Inr (Some found) \<and> succeeded_one_level found)) \<and>
   (getActionOrPathsStep r p None = Inr (Some s) \<longrightarrow>
      isStepExecutedWithSuccess r p = Inr (succeeded_one_level s)) \<and>
   (getActionOrPathsStep r p None = Inr (Some s) \<and> flat_step s \<longrightarrow>
      isStepExecutedWithSuccess r p = Inr (\<not> has_nested_error s)) \<and>
   (getActionOrPathsStep r p None = Inr (Some s) \<and> \<not> is_action s \<and> \<not> has_nested_error s \<longrightarrow>
      isStepExecutedWithSuccess r p = Inr True) \<and>
   (getActionOrPathsStep r p None = Inr None \<longrightarrow> isStepExecutedWithSuccess r p = Inr False) \<and>
   (getActionOrPathsStep r p None = Inl e \<longrightarrow>
      isStepExecutedWithSuccess r p = Inl e \<and> e = Error ''Path step not found'') \<and>
   (split_dot p = a # pn # segs \<and> find_step a (steps r) = Some (PathsStep sch st fin ps) \<and>
    find_path pn ps = None \<longrightarrow>
      isStepExecutedWithSuccess r p = Inl (Error ''Path step not found''))"
proof -
  have one: "isStepExecutedWithSuccess r p = Inr (succeeded_one_level s)"
    if "getActionOrPathsStep r p None = Inr (Some s)" for s
  proof (cases s)
    case (ActionStep sch inp out err st fin)
    with that show ?thesis
      by (cases err; cases out) (auto simp: isStepExecutedWithSuccess_def)
  next
    case (PathsStep sch st fin ps)
    with that show ?thesis
      by (simp add: isStepExecutedWithSuccess_def direct_errors)
  qed
  have flat: "succeeded_one_level s = (\<not> has_nested_error s)" if "flat_step s"
  proof (cases s)
    case (ActionStep sch inp out err st fin)
    with that show ?thesis by (cases err; cases out) auto
  next
    case (PathsStep sch' st' fin' ps')
    with that show ?thesis
      using flat_paths_errors [of ps'] direct_errors [of ps'] by auto
  qed
  have clean: "succeeded_one_level s" if "\<not> is_action s" "\<not> has_nested_error s"
    using that deep_clean_direct by (cases s) auto
  have thrown: "isStepExecutedWithSuccess r p = Inl (Error ''Path step not found'')"
    if "split_dot p = a # pn # segs" "find_step a (steps r) = Some (PathsStep sch st fin ps)"
       "find_path pn ps = None"
    using that by (simp add: isStepExecutedWithSuccess_def getActionOrPathsStep_dotted)
  have iff: "isStepExecutedWithSuccess r p = Inr True \<longleftrightarrow>
               (\<exists>found. getActionOrPathsStep r p None = Inr (Some found) \<and> succeeded_one_level found)"
  proof (cases "getActionOrPathsStep r p None")
    case (Inl thrown)
    then show ?thesis by (simp add: isStepExecutedWithSuccess_def)
  next
    case (Inr res)
    show ?thesis
    proof (cases res)
      case None
      with Inr show ?thesis by (simp add: isStepExecutedWithSuccess_def)
    next
      case (Some found)
      with Inr have "isStepExecutedWithSuccess r p = Inr (succeeded_one_level found)"
        using one [of found] by simp
      with Inr Some show ?thesis by simp
    qed
  qed
  have rest:
    "(getActionOrPathsStep r p None = Inr (Some s) \<longrightarrow>
        isStepExecutedWithSuccess r p = Inr (succeeded_one_level s)) \<and>
     (getActionOrPathsStep r p None = Inr (Some s) \<and> flat_step s \<longrightarrow>
        isStepExecutedWithSuccess r p = Inr (\<not> has_nested_error s)) \<and>
     (getActionOrPathsStep r p None = Inr (Some s) \<and> \<not> is_action s \<and> \<not> has_nested_error s \<longrightarrow>
        isStepExecutedWithSuccess r p = Inr True) \<and>
     (getActionOrPathsStep r p None = Inr None \<longrightarrow> isStepExecutedWithSuccess r p = Inr False) \<and>
     (getActionOrPathsStep r p None = Inl e \<longrightarrow>
        isStepExecutedWithSuccess r p = Inl e \<and> e = Error ''Path step not found'') \<and>
     (split_dot p = a # pn # segs \<and> find_step a (steps r) = Some (PathsStep sch st fin ps) \<and>
      find_path pn ps = None \<longrightarrow>
        isStepExecutedWithSuccess r p = Inl (Error ''Path step not found''))"
    using one [of s] flat clean thrown getActionOrPathsStep_throws [of r p None e]
    by (auto simp: isStepExecutedWithSuccess_def)
  show ?thesis
    using iff rest by (intro conjI) blast+
qed

theorem isStepExecutedWithSuccess_one_level_witness:
  "isStepExecutedWithSuccess nested_run ''a'' = Inr True \<and>
   isStepExecutedWithSuccess (run_with stopped [branch ''a'' [way ''p'' True [failed ''c'' ''boom'']]]) ''a''
     = Inr False \<and>
   isStepExecutedWithSuccess (run_with stopped [branch ''a'' [way ''p'' True [failed ''c'' ''boom'']]]) ''a.p.c''
     = Inr False \<and>
   isStepExecutedWithSuccess
     (run_with playing [ActionStep (http_schema ''d'') JNull (Present (JNum 0)) Absent 0 (Some 1)]) ''d''
     = Inr False \<and>
   isStepExecutedWithSuccess nested_run ''zz'' = Inr False \<and>
   isStepExecutedWithSuccess nested_run ''a.missing.c'' = Inl (Error ''Path step not found'')"
proof -
  let ?deep = "branch ''a'' [way ''p'' True [branch ''b'' [way ''q'' True [failed ''c'' ''boom'']]]]"
  let ?r = "run_with stopped [branch ''a'' [way ''p'' True [failed ''c'' ''boom'']]]"
  let ?d = "ActionStep (http_schema ''d'') JNull (Present (JNum 0)) Absent 0 (Some 1)"
  have n: "getActionOrPathsStep nested_run ''a'' None = Inr (Some ?deep)"
    by (simp add: nested_run_def path_eval example_defs)
  have a: "getActionOrPathsStep ?r ''a'' None
             = Inr (Some (branch ''a'' [way ''p'' True [failed ''c'' ''boom'']]))"
    by (simp add: path_eval example_defs)
  have c: "getActionOrPathsStep ?r ''a.p.c'' None = Inr (Some (failed ''c'' ''boom''))"
    by (simp add: path_eval example_defs)
  have d: "getActionOrPathsStep (run_with playing [?d]) ''d'' None = Inr (Some ?d)"
    by (simp add: path_eval example_defs)
  have z: "getActionOrPathsStep nested_run ''zz'' None = Inr None"
    by (simp add: nested_run_def path_eval example_defs)
  have fa: "flat_step (branch ''a'' [way ''p'' True [failed ''c'' ''boom'']])"
    by (simp add: example_defs)
  have fc: "flat_step (failed ''c'' ''boom'')"
    by (simp add: example_defs)
  have m: "split_dot ''a.missing.c'' = [''a'', ''missing'', ''c'']"
    by simp
  have t: "find_step ''a'' (steps nested_run) = Some ?deep"
    by (simp add: nested_run_def example_defs)
  show ?thesis
    using isStepExecutedWithSuccess_one_level [where r = nested_run and p = "''a''" and s = ?deep] n
          isStepExecutedWithSuccess_one_level [where r = ?r and p = "''a''"] a fa
          isStepExecutedWithSuccess_one_level [where r = ?r and p = "''a.p.c''"] c fc
          isStepExecutedWithSuccess_one_level [where r = "run_with playing [?d]" and p = "''d''"] d
          isStepExecutedWithSuccess_one_level [where r = nested_run and p = "''zz''"] z
          isStepExecutedWithSuccess_one_level [where r = nested_run and p = "''a.missing.c''"
            and a = "''a''" and pn = "''missing''" and segs = "[''c'']"
            and ps = "[way ''p'' True [branch ''b'' [way ''q'' True [failed ''c'' ''boom'']]]]"] m t
    by (simp add: example_defs direct_actions_def)
qed

text \<open>
  C1 as stated fails: the error of an action inside a nested paths step is not seen, and a
  path name that the paths step does not have makes the call throw instead of returning
  false.
\<close>

theorem isStepExecutedWithSuccess_nested_counterexample:
  "getActionOrPathsStep nested_run ''a'' None =
     Inr (Some (branch ''a'' [way ''p'' True [branch ''b'' [way ''q'' True [failed ''c'' ''boom'']]]])) \<and>
   has_nested_error (branch ''a'' [way ''p'' True [branch ''b'' [way ''q'' True [failed ''c'' ''boom'']]]]) \<and>
   isStepExecutedWithSuccess nested_run ''a'' = Inr True \<and>
   isStepExecutedWithSuccess nested_run ''a.missing.c'' = Inl (Error ''Path step not found'')"
  by (simp add: nested_run_def isStepExecutedWithSuccess_def path_eval example_defs)

section \<open>The error message of a run\<close>

text \<open>
  C5. The search of \<open>getErrorMessage\<close> returns at the first paths step with the result
  of the search inside it, so the failed step that follows an error-free paths step is not
  examined: the code returns \<^verbatim>\<open>undefined\<close> where the depth-first search of the
  specification finds \<^verbatim>\<open>boom\<close>.
\<close>

theorem getErrorMessage_stops_at_paths_step:
  "getErrorMessage sibling_run = None \<and>
   map_option message (spec_getError (steps sibling_run)) = Some ''boom''"
  by (simp add: sibling_run_def getErrorMessage_def example_defs)

section \<open>Stopping at a path that resolves to no step\<close>

text \<open>
  C7 (amended). On a run that is playing or filtered, \<open>stopActionStep\<close> with a path that
  resolves to no step sets the status to stopped and advances \<^verbatim>\<open>updatedAt\<close>, and writes
  nothing else: the step list is unchanged, no step is added for the error, and
  \<open>getErrorMessage\<close> returns what it returned before.
\<close>

theorem stopActionStep_unresolved_path:
  assumes "status r = playing \<or> status r = filtered"
    and "getActionOrPathsStep r p None = Inr None"
  shows "stopActionStep t1 t2 p e r = Inr (r\<lparr>updatedAt := t2, status := stopped\<rparr>) \<and>
         steps (r\<lparr>updatedAt := t2, status := stopped\<rparr>) = steps r \<and>
         getErrorMessage (r\<lparr>updatedAt := t2, status := stopped\<rparr>) = getErrorMessage r"
  using assms by (auto simp: stopActionStep_def getErrorMessage_def)

theorem stopActionStep_unresolved_path_witness:
  "stopActionStep 1 2 ''execution'' (Error ''boom'') (run_with playing [started ''a''])
     = Inr ((run_with playing [started ''a''])\<lparr>updatedAt := 2, status := stopped\<rparr>)"
proof -
  let ?r = "run_with playing [started ''a'']"
  have st: "status ?r = playing \<or> status ?r = filtered" by (simp add: run_with_def)
  have none: "getActionOrPathsStep ?r ''execution'' None = Inr None"
    by (simp add: path_eval example_defs)
  show ?thesis
    using stopActionStep_unresolved_path [OF st none, of 1 2 "Error ''boom''"] by simp
qed

text \<open>
  C7 as stated fails: after \<^verbatim>\<open>stopActionStep('execution', error)\<close> on a playing run the
  status is stopped, but the steps are the ones the run had and no error can be read back.
\<close>

theorem stopActionStep_execution_counterexample:
  "status (run_after (run_with playing [started ''a''])
            (stopActionStep 1 2 ''execution'' (Error ''boom'') (run_with playing [started ''a'']))) = stopped \<and>
   steps (run_after (run_with playing [started ''a''])
            (stopActionStep 1 2 ''execution'' (Error ''boom'') (run_with playing [started ''a''])))
     = [started ''a''] \<and>
   getErrorMessage (run_after (run_with playing [started ''a''])
            (stopActionStep 1 2 ''execution'' (Error ''boom'') (run_with playing [started ''a''])))
     = None"
  by (simp add: run_after_def stopActionStep_def getErrorMessage_def path_eval example_defs)

section \<open>The split-into-paths dispatch\<close>

lemma split_loop_entries:
  "snd (split_loop C r declared paths pathsSteps) = pathsSteps @ map (path_entry C r) declared"
proof (induction declared arbitrary: paths pathsSteps)
  case Nil
  show ?case by simp
next
  case (Cons p rest)
  show ?case
    by (cases "try_path C r p")
       (auto simp: Cons.IH path_entry_def caught_output_def String_error_def)
qed

lemma path_schema_of_entry: "path_schema_of (path_entry C r p) = p"
  by (cases "try_path C r p") (auto simp: path_entry_def)

text \<open>
  C8. The dispatch of a split-into-paths action evaluates every declared path; a throw of
  one path's evaluation is caught and recorded as \<^verbatim>\<open>{ canContinue: false, error }\<close> on that
  path's entry, and the loop goes on. The action returns data, and the run gains exactly one
  step, the paths step, whose entries are those of the declared paths, one for each, in order.
\<close>

theorem split_into_paths_records_every_path:
  assumes "service act = ''filter''" and "action act = ''split-into-paths''"
    and "params act = PathList declared"
  shows "snd (split_loop C r declared [] []) = map (path_entry C r) declared \<and>
         fst (execute_action C act actionPath r w)
           = Data (JObj (fst (split_loop C r declared [] []))) \<and>
         steps (fst (snd (execute_action C act actionPath r w)))
           = steps r @
             [PathsStep \<lparr>ps_name = name act, ps_service = ''filter'', ps_action = ''split-into-paths''\<rparr>
                (clock w) None (map (path_entry C r) declared)] \<and>
         map path_schema_of (map (path_entry C r) declared) = declared \<and>
         (\<forall>p\<in>set declared. \<forall>e. try_path C r p = Inl e \<longrightarrow>
            path_entry C r p
              = Path p (path_filter p)
                  (JObj [(''canContinue'', JBool False), (''error'', JStr (String_error e))]) [])"
proof -
  have entries: "snd (split_loop C r declared [] []) = map (path_entry C r) declared"
    using split_loop_entries [of C r declared "[]" "[]"] by simp
  obtain paths where loop: "split_loop C r declared [] [] = (paths, map (path_entry C r) declared)"
    using entries by (cases "split_loop C r declared [] []") simp
  have ex: "execute_action C act actionPath r w =
              (Data (JObj paths),
               startActionPathsStep (clock w) (Suc (clock w)) act (map (path_entry C r) declared) r,
               runRepository_update
                 (startActionPathsStep (clock w) (Suc (clock w)) act (map (path_entry C r) declared) r)
                 (ticks 2 w))"
    using assms loop by (simp add: execute_action_def dispatch_def or_empty_def Let_def)
  have names: "map path_schema_of (map (path_entry C r) declared) = declared"
    by (simp add: path_schema_of_entry map_idI)
  show ?thesis
    using entries ex loop names assms
    by (auto simp: startActionPathsStep_def path_entry_def String_error_def)
qed

theorem split_into_paths_records_every_path_witness:
  "steps (fst (snd (execute_action echo_collab
            (split_action ''s'' [declared_path ''p1'' ''yes'', declared_path ''p2'' ''bad'',
                                 declared_path ''p3'' ''no''])
            ''s'' (run_with playing []) fresh_world)))
     = [PathsStep \<lparr>ps_name = ''s'', ps_service = ''filter'', ps_action = ''split-into-paths''\<rparr> 10 None
          [Path (declared_path ''p1'' ''yes'') (JStr ''yes'') (JObj [(''canContinue'', JBool True)]) [],
           Path (declared_path ''p2'' ''bad'') (JStr ''bad'')
             (JObj [(''canContinue'', JBool False), (''error'', JStr ''Error: boom'')]) [],
           Path (declared_path ''p3'' ''no'') (JStr ''no'') (JObj [(''canContinue'', JBool False)]) []]]"
proof -
  let ?ds = "[declared_path ''p1'' ''yes'', declared_path ''p2'' ''bad'', declared_path ''p3'' ''no'']"
  let ?act = "split_action ''s'' ?ds"
  have 1: "service ?act = ''filter''" and 2: "action ?act = ''split-into-paths''"
    and 3: "params ?act = PathList ?ds"
    by (simp_all add: split_action_def)
  show ?thesis
    using split_into_paths_records_every_path [OF 1 2 3, of echo_collab "run_with playing []" "''s''" fresh_world]
    by (simp add: path_entry_def try_path_def echo_collab_def declared_path_def split_action_def
          fresh_world_def run_with_def String_error_def)
qed

section \<open>Facts about first-match reads and writes\<close>

lemma find_step_update_first:
  "\<forall>s. schema_name (f s) = schema_name s \<Longrightarrow>
   find_step a (update_first_step x f ss)
     = (if a = x then map_option f (find_step a ss) else find_step a ss)"
  by (induction ss) auto

lemma find_path_update_first:
  "\<forall>q. path_schema_name (f q) = path_schema_name q \<Longrightarrow>
   find_path a (update_first_path x f ps)
     = (if a = x then map_option f (find_path a ps) else find_path a ps)"
  by (induction ps) auto

lemma find_step_append:
  "find_step a (ss @ [n])
     = (case find_step a ss of
          Some s \<Rightarrow> Some s
        | None \<Rightarrow> if schema_name n = a then Some n else None)"
  by (induction ss) auto

lemma path_schema_name_set_actions [simp]:
  "path_schema_name (set_actions acts q) = path_schema_name q"
  by (cases q) simp

lemma actions_set_actions [simp]: "actions (set_actions acts q) = acts"
  by (cases q) simp

lemma map_names_update_first_path:
  "\<forall>q. path_schema_name (f q) = path_schema_name q \<Longrightarrow>
   map path_schema_name (update_first_path x f ps) = map path_schema_name ps"
  by (induction ps) auto

lemma keeps_shape_in_path: "keeps_shape (in_path pn g)"
  unfolding keeps_shape_def
proof (intro allI)
  fix s
  show "schema_name (in_path pn g s) = schema_name s \<and> path_names (in_path pn g s) = path_names s"
    by (cases s) (simp_all add: map_names_update_first_path)
qed

lemma keeps_shape_finish_output: "keeps_shape (\<lambda>s. set_finishedAt t (set_output v s))"
  unfolding keeps_shape_def
proof (intro allI)
  fix s
  show "schema_name (set_finishedAt t (set_output v s)) = schema_name s \<and>
        path_names (set_finishedAt t (set_output v s)) = path_names s"
    by (cases s) simp_all
qed

lemma keeps_shape_finish_error: "keeps_shape (\<lambda>s. set_finishedAt t (set_error e s))"
  unfolding keeps_shape_def
proof (intro allI)
  fix s
  show "schema_name (set_finishedAt t (set_error e s)) = schema_name s \<and>
        path_names (set_finishedAt t (set_error e s)) = path_names s"
    by (cases s) simp_all
qed

lemma find_path_names: "(find_path pn ps \<noteq> None) = (pn \<in> set (map path_schema_name ps))"
  by (induction ps) auto

lemma find_path_name: "find_path pn ps = Some q \<Longrightarrow> path_schema_name q = pn"
  by (induction ps) (auto split: if_splits)

lemma find_step_name: "find_step a ss = Some s \<Longrightarrow> schema_name s = a"
  by (induction ss) (auto split: if_splits)

lemma shape_update_first:
  "keeps_shape g \<Longrightarrow>
   map_option path_names (find_step a (update_first_step x g ss))
     = map_option path_names (find_step a ss)"
  by (simp add: find_step_update_first keeps_shape_def option.map_comp comp_def)

lemma keeps_shape_comp_in_path:
  "keeps_shape f \<Longrightarrow> keeps_shape (in_path pn (update_first_step c f))"
  by (rule keeps_shape_in_path)

lemma modifyStep_shape:
  "keeps_shape f \<Longrightarrow>
   map_option path_names (find_step a (steps (modifyStep f r p ctx)))
     = map_option path_names (find_step a (steps r))"
proof (induction "length p" arbitrary: p ctx rule: less_induct)
  case less
  show ?case
  proof (cases "split_dot p")
    case Nil
    then show ?thesis using split_dot_nonempty [of p] by simp
  next
    case (Cons x rest)
    show ?thesis
    proof (cases rest)
      case Nil
      with Cons have sp: "split_dot p = [x]" by simp
      show ?thesis
        using less.prems
        by (cases ctx)
           (auto simp: modifyStep_single [OF sp] shape_update_first keeps_shape_in_path)
    next
      case (Cons pn segs)
      with \<open>split_dot p = x # rest\<close> have sp: "split_dot p = x # pn # segs" by simp
      have smaller: "length (join_dot segs) < length p"
        using split_dot_length_rest [OF sp] .
      show ?thesis
        using less.prems less.hyps [OF smaller less.prems]
        by (auto simp: modifyStep_dotted [OF sp] shape_update_first
              split: option.splits step.splits)
    qed
  qed
qed

lemma getActionOrPathsStep_dotted_arg:
  "split_dot p = a # pn # segs \<Longrightarrow> getActionOrPathsStep r p sa = getActionOrPathsStep r p None"
  by (simp add: getActionOrPathsStep_dotted)

lemma modifyStep_dotted_arg:
  "split_dot p = a # pn # segs \<Longrightarrow> modifyStep f r p ctx = modifyStep f r p None"
  by (simp add: modifyStep_dotted)

lemma find_path_same_names:
  assumes "map path_schema_name ps' = map path_schema_name ps"
  shows "(find_path pn ps' \<noteq> None) = (find_path pn ps \<noteq> None)"
proof -
  have "(find_path pn ps' \<noteq> None) = (pn \<in> set (map path_schema_name ps'))"
    by (rule find_path_names)
  also have "\<dots> = (pn \<in> set (map path_schema_name ps))"
    by (simp only: assms)
  also have "\<dots> = (find_path pn ps \<noteq> None)"
    by (rule find_path_names [symmetric])
  finally show ?thesis .
qed

lemma path_names_resolve:
  assumes "map_option path_names (find_step a ss') = map_option path_names (find_step a ss)"
    and "find_step a ss = Some (PathsStep sch st fin ps)"
    and "find_path pn ps = Some q"
  shows "\<exists>sch' st' fin' ps' q'.
           find_step a ss' = Some (PathsStep sch' st' fin' ps') \<and> find_path pn ps' = Some q'"
proof -
  from assms(1,2) obtain s' where s': "find_step a ss' = Some s'"
    and pn': "path_names s' = Some (map path_schema_name ps)"
    by (cases "find_step a ss'") auto
  from pn' obtain sch' st' fin' ps' where eq: "s' = PathsStep sch' st' fin' ps'"
    and names: "map path_schema_name ps' = map path_schema_name ps"
    by (cases s') auto
  have "find_path pn ps \<noteq> None" using assms(3) by simp
  then have "find_path pn ps' \<noteq> None"
    using find_path_same_names [OF names] by simp
  then show ?thesis using s' eq by auto
qed

text \<open>The read after a write through the same path finds the written step.\<close>

lemma getActionOrPathsStep_modifyStep:
  "keeps_shape f \<Longrightarrow> getActionOrPathsStep r p None = Inr (Some s) \<Longrightarrow>
   getActionOrPathsStep (modifyStep f r p None) p None = Inr (Some (f s))"
proof (induction "length p" arbitrary: p rule: less_induct)
  case less
  have nm: "\<forall>s. schema_name (f s) = schema_name s"
    using less.prems(1) by (simp add: keeps_shape_def)
  show ?case
  proof (cases "split_dot p")
    case Nil
    then show ?thesis using split_dot_nonempty [of p] by simp
  next
    case (Cons x rest)
    show ?thesis
    proof (cases rest)
      case Nil
      with Cons have sp: "split_dot p = [x]" by simp
      show ?thesis
        using less.prems(2) nm
        by (simp add: getActionOrPathsStep_single [OF sp] modifyStep_single [OF sp]
              find_step_update_first)
    next
      case (Cons pn segs)
      with \<open>split_dot p = x # rest\<close> have sp: "split_dot p = x # pn # segs" by simp
      from less.prems(2) obtain sch st fin ps q where
        top: "find_step x (steps r) = Some (PathsStep sch st fin ps)"
        and pth: "find_path pn ps = Some q"
        by (auto simp: getActionOrPathsStep_dotted [OF sp] split: option.splits step.splits)
      show ?thesis
      proof (cases segs)
        case Nil
        with less.prems(2) top pth have s: "s = PathsStep sch st fin ps"
          by (simp add: getActionOrPathsStep_dotted [OF sp])
        have pn: "path_names (f s) = path_names s"
          using less.prems(1) by (simp add: keeps_shape_def)
        then obtain sch' st' fin' ps' where fs: "f s = PathsStep sch' st' fin' ps'"
          and names: "map path_schema_name ps' = map path_schema_name ps"
          using s by (cases "f s") auto
        have "find_path pn ps' \<noteq> None"
          using find_path_same_names [OF names, of pn] pth by simp
        then obtain q' where q': "find_path pn ps' = Some q'" by auto
        show ?thesis
          using Nil top pth s fs q' nm
          by (simp add: getActionOrPathsStep_dotted [OF sp] modifyStep_dotted [OF sp]
                find_step_update_first)
      next
        case (Cons c more)
        note segs = Cons
        show ?thesis
        proof (cases more)
          case Nil
          with segs have one: "segs = [c]" by simp
          have spc: "split_dot c = [c]"
            using split_dot_segments_dotfree [of c p] sp one by (simp add: split_dot_dotfree)
          from less.prems(2) top pth one spc have found: "find_step c (actions q) = Some s"
            by (simp add: getActionOrPathsStep_dotted [OF sp] getActionOrPathsStep_single)
          have ks: "\<forall>s. schema_name (in_path pn (update_first_step c f) s) = schema_name s"
            using keeps_shape_in_path [of pn "update_first_step c f"] by (simp add: keeps_shape_def)
          show ?thesis
            using one spc top pth found nm ks
            by (simp add: getActionOrPathsStep_dotted [OF sp] modifyStep_dotted [OF sp]
                  getActionOrPathsStep_single modifyStep_single find_step_update_first
                  find_path_update_first)
        next
          case (Cons d more')
          with segs have long: "segs = c # d # more'" by simp
          have ne: "segs \<noteq> []" using long by simp
          have sps: "split_dot (join_dot segs) = c # d # more'"
            using split_dot_rest [OF sp ne] long by simp
          have smaller: "length (join_dot segs) < length p"
            using split_dot_length_rest [OF sp] .
          have before: "getActionOrPathsStep r (join_dot segs) None = Inr (Some s)"
            using less.prems(2) top pth ne
              getActionOrPathsStep_dotted_arg [OF sps, of r "Some (actions q)"]
            by (simp add: getActionOrPathsStep_dotted [OF sp])
          have m: "modifyStep f r p None = modifyStep f r (join_dot segs) None"
            using top pth ne modifyStep_dotted_arg [OF sps, of f r "Some (x, pn)"]
            by (simp add: modifyStep_dotted [OF sp])
          have after: "getActionOrPathsStep (modifyStep f r (join_dot segs) None) (join_dot segs) None
                         = Inr (Some (f s))"
            using less.hyps [OF smaller less.prems(1) before] .
          obtain sch' st' fin' ps' q' where
            top': "find_step x (steps (modifyStep f r (join_dot segs) None))
                     = Some (PathsStep sch' st' fin' ps')"
            and pth': "find_path pn ps' = Some q'"
            using path_names_resolve [OF modifyStep_shape [OF less.prems(1)] top pth] by blast
          show ?thesis
            using m after top' pth' ne
              getActionOrPathsStep_dotted_arg
                [OF sps, of "modifyStep f r (join_dot segs) None" "Some (actions q')"]
            by (simp add: getActionOrPathsStep_dotted [OF sp])
        qed
      qed
    qed
  qed
qed

section \<open>Starting a step and reading it back\<close>

lemma startActionStep_shape:
  "startActionStep t1 t2 p schema input r = Inr r' \<Longrightarrow> find_step a (steps r) \<noteq> None \<Longrightarrow>
   map_option path_names (find_step a (steps r')) = map_option path_names (find_step a (steps r))"
proof (induction "length p" arbitrary: p rule: less_induct)
  case less
  show ?case
  proof (cases "split_dot p")
    case Nil
    then show ?thesis using split_dot_nonempty [of p] by simp
  next
    case (Cons x rest)
    show ?thesis
    proof (cases rest)
      case Nil
      with Cons have sp: "split_dot p = [x]" by simp
      show ?thesis
        using less.prems
        by (auto simp: startActionStep_single [OF sp] find_step_append)
    next
      case (Cons pn segs)
      with \<open>split_dot p = x # rest\<close> have sp: "split_dot p = x # pn # segs" by simp
      have smaller: "length (join_dot segs) < length p"
        using split_dot_length_rest [OF sp] .
      show ?thesis
      proof (cases "length segs < 2")
        case True
        with less.prems(1) show ?thesis
          by (auto simp: startActionStep_dotted [OF sp] shape_update_first keeps_shape_in_path
                split: option.splits step.splits)
      next
        case False
        with less.prems(1) have "startActionStep t1 t2 (join_dot segs) schema input r = Inr r'"
          by (auto simp: startActionStep_dotted [OF sp] split: option.splits step.splits)
        then show ?thesis
          using less.hyps [OF smaller _ less.prems(2)] by simp
      qed
    qed
  qed
qed

lemma startActionStep_round_trip:
  "startActionStep t1 t2 p schema input r = Inr r' \<Longrightarrow>
   getActionOrPathsStep r p None = Inr None \<Longrightarrow>
   name schema = last (split_dot p) \<Longrightarrow>
   getActionOrPathsStep r' p None = Inr (Some (new_action_step t1 schema input))"
proof (induction "length p" arbitrary: p rule: less_induct)
  case less
  let ?new = "new_action_step t1 schema input"
  have new_name: "schema_name ?new = name schema"
    by (simp add: new_action_step_def)
  show ?case
  proof (cases "split_dot p")
    case Nil
    then show ?thesis using split_dot_nonempty [of p] by simp
  next
    case (Cons x rest)
    show ?thesis
    proof (cases rest)
      case Nil
      with Cons have sp: "split_dot p = [x]" by simp
      have x_name: "name schema = x"
        using less.prems(3) sp by simp
      show ?thesis
        using less.prems(1,2) new_name x_name
        by (auto simp: startActionStep_single [OF sp] getActionOrPathsStep_single [OF sp]
              find_step_append)
    next
      case (Cons pn segs)
      with \<open>split_dot p = x # rest\<close> have sp: "split_dot p = x # pn # segs" by simp
      from less.prems(1) obtain sch st fin ps q where
        top: "find_step x (steps r) = Some (PathsStep sch st fin ps)"
        and pth: "find_path pn ps = Some q"
        by (auto simp: startActionStep_dotted [OF sp] split: option.splits step.splits)
      have ne: "segs \<noteq> []"
        using less.prems(2) top pth
        by (auto simp: getActionOrPathsStep_dotted [OF sp])
      show ?thesis
      proof (cases "length segs < 2")
        case True
        with ne obtain c where one: "segs = [c]"
          by (cases segs) auto
        have spc: "split_dot c = [c]"
          using split_dot_segments_dotfree [of c p] sp one by (simp add: split_dot_dotfree)
        have absent: "find_step c (actions q) = None"
          using less.prems(2) top pth one spc
          by (simp add: getActionOrPathsStep_dotted [OF sp] getActionOrPathsStep_single)
        have c_name: "name schema = c"
          using less.prems(3) sp one by simp
        have r': "r' = r\<lparr>steps := update_first_step x (in_path pn (\<lambda>acts. acts @ [?new])) (steps r),
                          updatedAt := t2\<rparr>"
          using less.prems(1) top pth one
          by (simp add: startActionStep_dotted [OF sp])
        have ks: "\<forall>s. schema_name (in_path pn (\<lambda>acts. acts @ [?new]) s) = schema_name s"
          using keeps_shape_in_path [of pn "\<lambda>acts. acts @ [?new]"] by (simp add: keeps_shape_def)
        show ?thesis
          using r' top pth one spc absent c_name new_name ks
          by (simp add: getActionOrPathsStep_dotted [OF sp] getActionOrPathsStep_single
                find_step_update_first find_path_update_first find_step_append)
      next
        case False
        then obtain c d more where long: "segs = c # d # more"
          by (cases segs; cases "tl segs") auto
        have sps: "split_dot (join_dot segs) = c # d # more"
          using split_dot_rest [OF sp ne] long by simp
        have smaller: "length (join_dot segs) < length p"
          using split_dot_length_rest [OF sp] .
        have st: "startActionStep t1 t2 (join_dot segs) schema input r = Inr r'"
          using less.prems(1) top pth False by (simp add: startActionStep_dotted [OF sp])
        have before: "getActionOrPathsStep r (join_dot segs) None = Inr None"
          using less.prems(2) top pth ne
                getActionOrPathsStep_dotted_arg [OF sps, of r "Some (actions q)"]
          by (simp add: getActionOrPathsStep_dotted [OF sp])
        have lst: "name schema = last (split_dot (join_dot segs))"
          using less.prems(3) sp sps long by simp
        have after: "getActionOrPathsStep r' (join_dot segs) None = Inr (Some ?new)"
          using less.hyps [OF smaller st before lst] .
        have "find_step x (steps r) \<noteq> None" using top by simp
        from startActionStep_shape [OF less.prems(1) this]
        obtain sch' st' fin' ps' q' where
          top': "find_step x (steps r') = Some (PathsStep sch' st' fin' ps')"
          and pth': "find_path pn ps' = Some q'"
          using path_names_resolve [OF _ top pth, of "steps r'"] by blast
        show ?thesis
          using after top' pth' ne
                getActionOrPathsStep_dotted_arg [OF sps, of r' "Some (actions q')"]
          by (simp add: getActionOrPathsStep_dotted [OF sp])
      qed
    qed
  qed
qed

text \<open>
  C2 (amended). If \<open>startActionStep\<close> returns for a dotted path that resolved to no step
  before the call, with a schema named as the last segment, then \<open>getActionOrPathsStep\<close>
  on the same path returns the new unfinished step, at any depth. A path without a dot
  appends the step to the top-level steps. A path \<^verbatim>\<open>a.p.c\<close> whose \<^verbatim>\<open>a\<close> is, among the
  top-level steps, a paths step with a path \<^verbatim>\<open>p\<close> appends the step to the end of the
  actions of that path. \<open>startActionStep\<close> throws when the first segment of a dotted path
  names no top-level step, names an action step, or names a paths step without the path
  that the second segment names.
\<close>

theorem startActionStep_addressing:
  "(startActionStep t1 t2 p schema input r = Inr r' \<and>
    getActionOrPathsStep r p None = Inr None \<and> name schema = last (split_dot p) \<longrightarrow>
      getActionOrPathsStep r' p None
        = Inr (Some (ActionStep schema input Undefined Undefined t1 None))) \<and>
   (split_dot p = [c] \<longrightarrow>
      startActionStep t1 t2 p schema input r
        = Inr (r\<lparr>steps := steps r @ [ActionStep schema input Undefined Undefined t1 None],
                 updatedAt := t2\<rparr>)) \<and>
   (split_dot p = [a, pn, c] \<and> find_step a (steps r) = Some (PathsStep sch st fin ps) \<and>
    find_path pn ps = Some q \<longrightarrow>
      startActionStep t1 t2 p schema input r
        = Inr (r\<lparr>steps := update_first_step a
                          (in_path pn (\<lambda>acts. acts @ [ActionStep schema input Undefined Undefined t1 None]))
                          (steps r),
                 updatedAt := t2\<rparr>) \<and>
      find_step a (update_first_step a
                     (in_path pn (\<lambda>acts. acts @ [ActionStep schema input Undefined Undefined t1 None]))
                     (steps r))
        = Some (PathsStep sch st fin
                  (update_first_path pn
                     (\<lambda>q. set_actions (actions q @ [ActionStep schema input Undefined Undefined t1 None]) q)
                     ps)) \<and>
      find_path pn
          (update_first_path pn
             (\<lambda>q. set_actions (actions q @ [ActionStep schema input Undefined Undefined t1 None]) q)
             ps)
        = Some (set_actions (actions q @ [ActionStep schema input Undefined Undefined t1 None]) q)) \<and>
   (split_dot p = a # pn # segs \<and>
    (find_step a (steps r) = None \<or>
     (\<exists>s. find_step a (steps r) = Some s \<and> is_action s) \<or>
     (\<exists>sch st fin ps. find_step a (steps r) = Some (PathsStep sch st fin ps) \<and>
                       find_path pn ps = None)) \<longrightarrow>
      isl (startActionStep t1 t2 p schema input r))"
proof (intro conjI impI)
  assume "startActionStep t1 t2 p schema input r = Inr r' \<and>
          getActionOrPathsStep r p None = Inr None \<and> name schema = last (split_dot p)"
  then show "getActionOrPathsStep r' p None
               = Inr (Some (ActionStep schema input Undefined Undefined t1 None))"
    using startActionStep_round_trip [of t1 t2 p schema input r r']
    by (simp add: new_action_step_def)
next
  assume "split_dot p = [c]"
  then show "startActionStep t1 t2 p schema input r
               = Inr (r\<lparr>steps := steps r @ [ActionStep schema input Undefined Undefined t1 None],
                        updatedAt := t2\<rparr>)"
    by (simp add: startActionStep_single new_action_step_def)
next
  assume h: "split_dot p = [a, pn, c] \<and> find_step a (steps r) = Some (PathsStep sch st fin ps) \<and>
             find_path pn ps = Some q"
  have ks: "\<forall>s. schema_name (in_path pn g s) = schema_name s" for g
    using keeps_shape_in_path [of pn g] by (simp add: keeps_shape_def)
  from h show "startActionStep t1 t2 p schema input r
        = Inr (r\<lparr>steps := update_first_step a
                          (in_path pn (\<lambda>acts. acts @ [ActionStep schema input Undefined Undefined t1 None]))
                          (steps r),
                 updatedAt := t2\<rparr>)"
    by (simp add: startActionStep_dotted new_action_step_def)
  from h show "find_step a (update_first_step a
                     (in_path pn (\<lambda>acts. acts @ [ActionStep schema input Undefined Undefined t1 None]))
                     (steps r))
        = Some (PathsStep sch st fin
                  (update_first_path pn
                     (\<lambda>q. set_actions (actions q @ [ActionStep schema input Undefined Undefined t1 None]) q)
                     ps))"
    using ks by (simp add: find_step_update_first)
  from h show "find_path pn
          (update_first_path pn
             (\<lambda>q. set_actions (actions q @ [ActionStep schema input Undefined Undefined t1 None]) q)
             ps)
        = Some (set_actions (actions q @ [ActionStep schema input Undefined Undefined t1 None]) q)"
    by (simp add: find_path_update_first)
next
  assume h: "split_dot p = a # pn # segs \<and>
    (find_step a (steps r) = None \<or>
     (\<exists>s. find_step a (steps r) = Some s \<and> is_action s) \<or>
     (\<exists>sch st fin ps. find_step a (steps r) = Some (PathsStep sch st fin ps) \<and>
                       find_path pn ps = None))"
  then have sp: "split_dot p = a # pn # segs" by simp
  from h show "isl (startActionStep t1 t2 p schema input r)"
    by (auto simp: startActionStep_dotted [OF sp] split: option.splits step.splits)
qed

theorem startActionStep_addressing_witness:
  "startActionStep 1 2 ''a.p.c'' (http_schema ''c'') JNull
       (run_with playing [branch ''a'' [way ''p'' True []]])
     = Inr ((run_with playing [branch ''a'' [way ''p'' True [new_action_step 1 (http_schema ''c'') JNull]]])
              \<lparr>updatedAt := 2\<rparr>) \<and>
   getActionOrPathsStep
       ((run_with playing [branch ''a'' [way ''p'' True [new_action_step 1 (http_schema ''c'') JNull]]])
          \<lparr>updatedAt := 2\<rparr>) ''a.p.c'' None
     = Inr (Some (new_action_step 1 (http_schema ''c'') JNull)) \<and>
   isl (startActionStep 1 2 ''zz.p.c'' (http_schema ''c'') JNull
          (run_with playing [branch ''a'' [way ''p'' True []]]))"
proof -
  let ?r = "run_with playing [branch ''a'' [way ''p'' True []]]"
  let ?r' = "(run_with playing [branch ''a'' [way ''p'' True [new_action_step 1 (http_schema ''c'') JNull]]])
               \<lparr>updatedAt := 2\<rparr>"
  have st: "startActionStep 1 2 ''a.p.c'' (http_schema ''c'') JNull ?r = Inr ?r'"
    by (simp add: path_eval example_defs)
  have none: "getActionOrPathsStep ?r ''a.p.c'' None = Inr None"
    by (simp add: path_eval example_defs)
  have nm: "name (http_schema ''c'') = last (split_dot ''a.p.c'')"
    by (simp add: http_schema_def)
  have sp: "split_dot ''zz.p.c'' = [''zz'', ''p'', ''c'']" by simp
  have missing: "find_step ''zz'' (steps ?r) = None"
    by (simp add: example_defs)
  show ?thesis
    using startActionStep_addressing
            [where p = "''a.p.c''" and r = ?r and r' = ?r' and ?t1.0 = 1 and ?t2.0 = 2
               and schema = "http_schema ''c''" and input = JNull]
          startActionStep_addressing
            [where p = "''zz.p.c''" and r = ?r and ?t1.0 = 1 and ?t2.0 = 2
               and schema = "http_schema ''c''" and input = JNull
               and a = "''zz''" and pn = "''p''" and segs = "[''c'']"]
          st none nm sp missing
    by (simp add: new_action_step_def)
qed

text \<open>
  C2 as stated fails. On a run whose path \<^verbatim>\<open>a.p\<close> already holds a step named \<^verbatim>\<open>c\<close>,
  \<open>startActionStep\<close> appends the new step and the read returns the older one. On a run
  whose paths step \<^verbatim>\<open>b\<close> lies inside the path \<^verbatim>\<open>a.p\<close>, the write to \<^verbatim>\<open>a.p.b.q.c\<close>
  throws although every intermediate segment names an existing paths step and path: the
  name \<^verbatim>\<open>b\<close> is looked up among the top-level steps.
\<close>

theorem startActionStep_round_trip_counterexample:
  "startActionStep 1 2 ''a.p.c'' (http_schema ''c'') JNull
       (run_with playing [branch ''a'' [way ''p'' True [failed ''c'' ''old'']]])
     = Inr ((run_with playing
               [branch ''a'' [way ''p'' True [failed ''c'' ''old'', new_action_step 1 (http_schema ''c'') JNull]]])
              \<lparr>updatedAt := 2\<rparr>) \<and>
   getActionOrPathsStep
       ((run_with playing
           [branch ''a'' [way ''p'' True [failed ''c'' ''old'', new_action_step 1 (http_schema ''c'') JNull]]])
          \<lparr>updatedAt := 2\<rparr>) ''a.p.c'' None
     = Inr (Some (failed ''c'' ''old'')) \<and>
   failed ''c'' ''old'' \<noteq> new_action_step 1 (http_schema ''c'') JNull \<and>
   startActionStep 1 2 ''a.p.b.q.c'' (http_schema ''c'') JNull
       (run_with playing [branch ''a'' [way ''p'' True [branch ''b'' [way ''q'' True []]]]])
     = Inl (Error ''Action step \"b\" not found'')"
  by (simp add: path_eval example_defs new_action_step_def)

section \<open>Facts about recording an output\<close>

lemma getActionOrPathsStep_steps_only:
  "steps r' = steps r \<Longrightarrow> getActionOrPathsStep r' p sa = getActionOrPathsStep r p sa"
proof (induction "length p" arbitrary: p sa rule: less_induct)
  case less
  show ?case
  proof (cases "split_dot p")
    case Nil
    then show ?thesis using split_dot_nonempty [of p] by simp
  next
    case (Cons x rest)
    show ?thesis
    proof (cases rest)
      case Nil
      with Cons have sp: "split_dot p = [x]" by simp
      show ?thesis
        using less.prems by (cases sa) (simp_all add: getActionOrPathsStep_single [OF sp])
    next
      case (Cons pn segs)
      with \<open>split_dot p = x # rest\<close> have sp: "split_dot p = x # pn # segs" by simp
      have smaller: "length (join_dot segs) < length p"
        using split_dot_length_rest [OF sp] .
      show ?thesis
        using less.prems less.hyps [OF smaller less.prems]
        by (simp add: getActionOrPathsStep_dotted [OF sp] split: option.splits step.splits)
    qed
  qed
qed

lemma json_names [simp]:
  "schema_name (json_step s) = schema_name s"
  "path_schema_name (json_path q) = path_schema_name q"
  "actions (json_path q) = map json_step (actions q)"
  by (cases s; simp) (cases q; simp)+

lemma find_step_json: "find_step a (map json_step ss) = map_option json_step (find_step a ss)"
  by (induction ss) auto

lemma find_path_json: "find_path a (map json_path ps) = map_option json_path (find_path a ps)"
  by (induction ps) auto

lemma getActionOrPathsStep_json:
  "steps rc = map json_step (steps r) \<Longrightarrow>
   getActionOrPathsStep rc p (map_option (map json_step) sa)
     = map_sum id (map_option json_step) (getActionOrPathsStep r p sa)"
proof (induction "length p" arbitrary: p sa rule: less_induct)
  case less
  show ?case
  proof (cases "split_dot p")
    case Nil
    then show ?thesis using split_dot_nonempty [of p] by simp
  next
    case (Cons x rest)
    show ?thesis
    proof (cases rest)
      case Nil
      with Cons have sp: "split_dot p = [x]" by simp
      show ?thesis
        using less.prems
        by (cases sa) (simp_all add: getActionOrPathsStep_single [OF sp] find_step_json)
    next
      case (Cons pn segs)
      with \<open>split_dot p = x # rest\<close> have sp: "split_dot p = x # pn # segs" by simp
      have smaller: "length (join_dot segs) < length p"
        using split_dot_length_rest [OF sp] .
      have ih: "getActionOrPathsStep rc (join_dot segs) (Some (map json_step acts))
                  = map_sum id (map_option json_step)
                      (getActionOrPathsStep r (join_dot segs) (Some acts))" for acts
        using less.hyps [OF smaller less.prems, of "Some acts"] by simp
      show ?thesis
        using less.prems ih
        by (auto simp: getActionOrPathsStep_dotted [OF sp] find_step_json find_path_json
              split: option.splits step.splits)
    qed
  qed
qed

lemma getActionOrPathsStep_clone:
  "getActionOrPathsStep (clone u r) p None
     = map_sum id (map_option json_step) (getActionOrPathsStep r p None)"
  using getActionOrPathsStep_json [of "clone u r" r p None] by (simp add: clone_def)

lemma successActionStep_found:
  assumes "getActionOrPathsStep r p None = Inr (Some s)"
  shows "successActionStep t1 t2 p v r
           = Inr ((modifyStep (\<lambda>s. set_finishedAt t1 (set_output v s)) r p None)\<lparr>updatedAt := t2\<rparr>)"
    and "getActionOrPathsStep
           ((modifyStep (\<lambda>s. set_finishedAt t1 (set_output v s)) r p None)\<lparr>updatedAt := t2\<rparr>) p None
           = Inr (Some (set_finishedAt t1 (set_output v s)))"
proof -
  show "successActionStep t1 t2 p v r
           = Inr ((modifyStep (\<lambda>s. set_finishedAt t1 (set_output v s)) r p None)\<lparr>updatedAt := t2\<rparr>)"
    using assms by (simp add: successActionStep_def getActionOrPathsStepOrThrow_def)
  have "getActionOrPathsStep
           ((modifyStep (\<lambda>s. set_finishedAt t1 (set_output v s)) r p None)\<lparr>updatedAt := t2\<rparr>) p None
        = getActionOrPathsStep (modifyStep (\<lambda>s. set_finishedAt t1 (set_output v s)) r p None) p None"
    by (rule getActionOrPathsStep_steps_only) simp
  then show "getActionOrPathsStep
           ((modifyStep (\<lambda>s. set_finishedAt t1 (set_output v s)) r p None)\<lparr>updatedAt := t2\<rparr>) p None
           = Inr (Some (set_finishedAt t1 (set_output v s)))"
    using getActionOrPathsStep_modifyStep [OF keeps_shape_finish_output assms, of t1 v] by simp
qed

lemma modifyStep_fields:
  "automation_id (modifyStep f r p ctx) = automation_id r"
  "run_id (modifyStep f r p ctx) = run_id r"
  "form_id (modifyStep f r p ctx) = form_id r"
  by (subst modifyStep_only_steps, simp)+

section \<open>Cloning a run\<close>

lemma json_step_no_undefined:
  "no_undefined s \<Longrightarrow> json_step s = s"
  "no_undefined_path q \<Longrightarrow> json_path q = q"
proof (induction s and q)
  case (ActionStep sch inp out err st fin)
  then show ?case by simp
next
  case (PathsStep sch st fin ps)
  then show ?case by (simp add: list_all_iff map_idI)
next
  case (Path sch inp out acts)
  then show ?case by (simp add: list_all_iff map_idI)
qed

lemma store_frame:
  assumes "\<forall>x. lo \<le> x \<and> x < hi \<longrightarrow> h' x = h x"
  shows "step_in h lo hi a s \<Longrightarrow> step_in h' lo hi a s"
    and "path_in h lo hi b q \<Longrightarrow> path_in h' lo hi b q"
    and "steps_in h lo hi refs ss \<Longrightarrow> steps_in h' lo hi refs ss"
    and "paths_in h lo hi brefs qs \<Longrightarrow> paths_in h' lo hi brefs qs"
  using assms
  by (induction h lo hi a s and h lo hi b q and h lo hi refs ss and h lo hi brefs qs
        rule: step_in_path_in_steps_in_paths_in.induct)
     (auto split: option.splits obj.splits)

lemma store_widen:
  assumes "lo' \<le> lo" "hi \<le> hi'"
  shows "step_in h lo hi a s \<Longrightarrow> step_in h lo' hi' a s"
    and "path_in h lo hi b q \<Longrightarrow> path_in h lo' hi' b q"
    and "steps_in h lo hi refs ss \<Longrightarrow> steps_in h lo' hi' refs ss"
    and "paths_in h lo hi brefs qs \<Longrightarrow> paths_in h lo' hi' brefs qs"
  using assms
  by (induction h lo hi a s and h lo hi b q and h lo hi refs ss and h lo hi brefs qs
        rule: step_in_path_in_steps_in_paths_in.induct)
     (auto split: option.splits obj.splits)

text \<open>The store and the references determine the steps that are held.\<close>

lemma store_unique:
  shows "step_in h lo hi a s \<Longrightarrow> step_in h lo' hi' a s' \<Longrightarrow> s = s'"
    and "path_in h lo hi b q \<Longrightarrow> path_in h lo' hi' b q' \<Longrightarrow> q = q'"
    and "steps_in h lo hi refs ss \<Longrightarrow> steps_in h lo' hi' refs ss' \<Longrightarrow> ss = ss'"
    and "paths_in h lo hi brefs qs \<Longrightarrow> paths_in h lo' hi' brefs qs' \<Longrightarrow> qs = qs'"
proof (induction h lo hi a s and h lo hi b q and h lo hi refs ss and h lo hi brefs qs
         arbitrary: s' and q' and ss' and qs'
         rule: step_in_path_in_steps_in_paths_in.induct)
  case (1 h lo hi a sch inp out err st fin)
  then show ?case by (cases s') (auto split: option.splits obj.splits)
next
  case (2 h lo hi a sch st fin ps)
  then show ?case by (cases s') (auto split: option.splits obj.splits)
next
  case (3 h lo hi a sch inp out acts)
  then show ?case by (cases q') (auto split: option.splits obj.splits)
next
  case (4 h lo hi)
  then show ?case by (cases ss') auto
next
  case (5 h lo hi a refs s ss)
  then show ?case by (cases ss') auto
next
  case (6 h lo hi s ss)
  then show ?case by simp
next
  case (7 h lo hi a refs)
  then show ?case by simp
next
  case (8 h lo hi)
  then show ?case by (cases qs') auto
next
  case (9 h lo hi a refs q qs)
  then show ?case by (cases qs') auto
next
  case (10 h lo hi q qs)
  then show ?case by simp
next
  case (11 h lo hi a refs)
  then show ?case by simp
qed

text \<open>
  New objects lie from the next free address on, hold the value they were built from, and
  leave every other address of the store as it was.
\<close>

lemma new_objects:
  shows "new_step s h n = (a, h', n') \<Longrightarrow>
           n \<le> a \<and> a < n' \<and> (\<forall>x. x < n \<or> n' \<le> x \<longrightarrow> h' x = h x) \<and> step_in h' n n' a s"
    and "new_path q h n = (b, h', n') \<Longrightarrow>
           n \<le> b \<and> b < n' \<and> (\<forall>x. x < n \<or> n' \<le> x \<longrightarrow> h' x = h x) \<and> path_in h' n n' b q"
    and "new_steps ss h n = (refs, h', n') \<Longrightarrow>
           n \<le> n' \<and> (\<forall>x. x < n \<or> n' \<le> x \<longrightarrow> h' x = h x) \<and> steps_in h' n n' refs ss"
    and "new_paths qs h n = (brefs, h', n') \<Longrightarrow>
           n \<le> n' \<and> (\<forall>x. x < n \<or> n' \<le> x \<longrightarrow> h' x = h x) \<and> paths_in h' n n' brefs qs"
proof (induction s h n and q h n and ss h n and qs h n
         arbitrary: a h' n' and b h' n' and refs h' n' and brefs h' n'
         rule: new_step_new_path_new_steps_new_paths.induct)
  case (1 sch inp out err st fin h n)
  then show ?case by auto
next
  case (2 sch st fin ps h n)
  obtain refs h1 n1 where np: "new_paths ps h n = (refs, h1, n1)"
    by (cases "new_paths ps h n") auto
  from "2.IH" [OF np] have le: "n \<le> n1" and fr: "\<forall>x. x < n \<or> n1 \<le> x \<longrightarrow> h1 x = h x"
    and rep: "paths_in h1 n n1 refs ps"
    by auto
  from "2.prems" np have res: "a = n1" "h' = h1(n1 \<mapsto> PathsObj sch st fin refs)" "n' = Suc n1"
    by auto
  have "paths_in h' n n1 refs ps"
    using store_frame(4) [OF _ rep, of h'] res by simp
  then have "paths_in h' n n' refs ps"
    using store_widen(4) [of n n n1 n' h' refs ps] res by simp
  then have rep': "step_in h' n n' a (PathsStep sch st fin ps)"
    using le res by simp
  have "\<forall>x. x < n \<or> n' \<le> x \<longrightarrow> h' x = h x"
    using fr le res by simp
  then show ?case
    using rep' le res(1,3) by simp
next
  case (3 sch inp out acts h n)
  obtain refs h1 n1 where ns: "new_steps acts h n = (refs, h1, n1)"
    by (cases "new_steps acts h n") auto
  from "3.IH" [OF ns] have le: "n \<le> n1" and fr: "\<forall>x. x < n \<or> n1 \<le> x \<longrightarrow> h1 x = h x"
    and rep: "steps_in h1 n n1 refs acts"
    by auto
  from "3.prems" ns have res: "b = n1" "h' = h1(n1 \<mapsto> PathObj sch inp out refs)" "n' = Suc n1"
    by auto
  have "steps_in h' n n1 refs acts"
    using store_frame(3) [OF _ rep, of h'] res by simp
  then have "steps_in h' n n' refs acts"
    using store_widen(3) [of n n n1 n' h' refs acts] res by simp
  then have rep': "path_in h' n n' b (Path sch inp out acts)"
    using le res by simp
  have "\<forall>x. x < n \<or> n' \<le> x \<longrightarrow> h' x = h x"
    using fr le res by simp
  then show ?case
    using rep' le res(1,3) by simp
next
  case (4 h n)
  then show ?case by auto
next
  case (5 s ss h n)
  obtain a h1 n1 where n1: "new_step s h n = (a, h1, n1)"
    by (cases "new_step s h n") auto
  obtain rest h2 n2 where n2: "new_steps ss h1 n1 = (rest, h2, n2)"
    by (cases "new_steps ss h1 n1") auto
  from "5.IH"(1) [OF n1] have a: "n \<le> a" "a < n1"
    and fr1: "\<forall>x. x < n \<or> n1 \<le> x \<longrightarrow> h1 x = h x" and rep1: "step_in h1 n n1 a s"
    by auto
  from "5.IH"(2) [OF n1 [symmetric] refl n2] have le2: "n1 \<le> n2"
    and fr2: "\<forall>x. x < n1 \<or> n2 \<le> x \<longrightarrow> h2 x = h1 x" and rep2: "steps_in h2 n1 n2 rest ss"
    by auto
  from "5.prems" n1 n2 have res: "refs = a # rest" "h' = h2" "n' = n2"
    by auto
  have "step_in h2 n n1 a s"
    using store_frame(1) [OF _ rep1, of h2] fr2 by simp
  then have s1: "step_in h2 n n2 a s"
    using store_widen(1) [of n n n1 n2 h2 a s] le2 by simp
  have s2: "steps_in h2 n n2 rest ss"
    using store_widen(3) [of n n1 n2 n2 h2 rest ss] rep2 a by simp
  have "\<forall>x. x < n \<or> n2 \<le> x \<longrightarrow> h2 x = h x"
    using fr1 fr2 a le2 by auto
  then show ?case
    using s1 s2 res a le2 by auto
next
  case (6 h n)
  then show ?case by auto
next
  case (7 q qs h n)
  obtain b h1 n1 where n1: "new_path q h n = (b, h1, n1)"
    by (cases "new_path q h n") auto
  obtain rest h2 n2 where n2: "new_paths qs h1 n1 = (rest, h2, n2)"
    by (cases "new_paths qs h1 n1") auto
  from "7.IH"(1) [OF n1] have b: "n \<le> b" "b < n1"
    and fr1: "\<forall>x. x < n \<or> n1 \<le> x \<longrightarrow> h1 x = h x" and rep1: "path_in h1 n n1 b q"
    by auto
  from "7.IH"(2) [OF n1 [symmetric] refl n2] have le2: "n1 \<le> n2"
    and fr2: "\<forall>x. x < n1 \<or> n2 \<le> x \<longrightarrow> h2 x = h1 x" and rep2: "paths_in h2 n1 n2 rest qs"
    by auto
  from "7.prems" n1 n2 have res: "brefs = b # rest" "h' = h2" "n' = n2"
    by auto
  have "path_in h2 n n1 b q"
    using store_frame(2) [OF _ rep1, of h2] fr2 by simp
  then have s1: "path_in h2 n n2 b q"
    using store_widen(2) [of n n n1 n2 h2 b q] le2 by simp
  have s2: "paths_in h2 n n2 rest qs"
    using store_widen(4) [of n n1 n2 n2 h2 rest qs] rep2 b by simp
  have "\<forall>x. x < n \<or> n2 \<le> x \<longrightarrow> h2 x = h x"
    using fr1 fr2 b le2 by auto
  then show ?case
    using s1 s2 res b le2 by auto
qed

lemma step_in_bounds:
  "step_in h lo hi a s \<Longrightarrow> lo \<le> a \<and> a < hi"
  by (cases s) simp_all

lemma steps_in_bounds:
  "steps_in h lo hi refs ss \<Longrightarrow> \<forall>a\<in>set refs. lo \<le> a \<and> a < hi"
proof (induction refs arbitrary: ss)
  case Nil
  show ?case by simp
next
  case (Cons a refs)
  then show ?case
    using step_in_bounds by (cases ss) auto
qed

lemma buildOutput_json:
  "buildOutput acc (map json_step ss) = buildOutput acc ss"
  "buildPaths pacc (map json_path ps) = buildPaths pacc ps"
proof (induction acc ss and pacc ps rule: buildOutput_buildPaths.induct)
  case (3 acc sch inp out err st fin rest)
  then show ?case by (cases out) simp_all
qed simp_all

lemma getError_json: "getError (map json_step ss) = getError ss"
proof (induction ss rule: getError.induct)
  case 1
  show ?case by simp
next
  case (2 sch st fin ps rest)
  have "concat (map actions (map json_path ps)) = map json_step (concat (map actions ps))"
    by (simp add: map_concat comp_def)
  with 2 show ?case by simp
next
  case (3 sch inp out err st fin rest)
  then show ?case by (cases err) simp_all
qed

text \<open>What a store holds for a run is not changed by a write outside the run's addresses.\<close>

lemma run_in_frame:
  "\<forall>x. lo \<le> x \<and> x < hi \<longrightarrow> h' x = h x \<Longrightarrow> run_in h lo hi refs r \<Longrightarrow> run_in h' lo hi refs r"
  using store_frame(3) [of lo hi h' h "step_refs refs" "steps r"]
  by (simp add: run_in_def)

lemma clone_refs_objects:
  assumes rep: "run_in h 0 n refs r"
    and cl: "clone_refs r h n = (refs', h', n')"
  shows "n < n'" and "\<forall>x. x < n \<longrightarrow> h' x = h x"
    and "run_in h' n n' refs' (clone u r)" and "run_in h' 0 n refs r"
proof -
  let ?h0 = "h(n \<mapsto> TriggerObj (trigger_output r))"
  obtain new where ns: "new_steps (map json_step (steps r)) ?h0 (Suc n) = (new, h', n')"
    and refs': "refs' = \<lparr>trigger_ref = n, step_refs = new\<rparr>"
    using cl by (auto simp: clone_refs_def split: prod.splits)
  from new_objects(3) [OF ns] have le: "Suc n \<le> n'"
    and fr: "\<forall>x. x < Suc n \<or> n' \<le> x \<longrightarrow> h' x = ?h0 x"
    and new: "steps_in h' (Suc n) n' new (map json_step (steps r))"
    by auto
  show "n < n'" using le by simp
  show old: "\<forall>x. x < n \<longrightarrow> h' x = h x" using fr by simp
  have "h' n = Some (TriggerObj (trigger_output r))" using fr by simp
  moreover have "steps_in h' n n' new (map json_step (steps r))"
    using store_widen(3) [of n "Suc n" n' n' h' new] new by simp
  ultimately show "run_in h' n n' refs' (clone u r)"
    using le by (simp add: run_in_def refs' clone_def)
  show "run_in h' 0 n refs r"
    using run_in_frame [OF _ rep, of h'] old by simp
qed

text \<open>
  C6 (amended). \<open>clone\<close> returns a run whose id is newly drawn from the supply, so it
  differs from the id of the original and from every id drawn before; the creation and
  update times are those of the original, not new ones; automation id, form id, trigger
  output and status are those of the original, and the replay flag is cleared. The step
  tree is a deep copy: it is the tree of the original without the properties whose value
  is undefined (the same tree when there is none), and it reads the same through the
  lookup, \<open>getStepsOutput\<close> and \<open>getErrorMessage\<close>. It shares no mutable state with the
  original: in the store all its objects are new and hold the copy and nothing else, the
  objects of the original are left as they were, no reference of the one run is a reference
  of the other, and whatever is written afterwards to the objects of the one run, the other
  run holds the steps it held.
\<close>

theorem clone_deep_copy:
  assumes "run_in h 0 n refs r"
    and "clone_refs r h n = (refs', h', n')"
    and "randomUUID w = (u, w')"
    and "run_id r < next_uuid w"
  shows "run_id (clone u r) = next_uuid w \<and>
         run_id (clone u r) \<noteq> run_id r \<and>
         (\<forall>v. v < next_uuid w \<longrightarrow> run_id (clone u r) \<noteq> v) \<and>
         run_id (clone u r) < next_uuid w' \<and>
         createdAt (clone u r) = createdAt r \<and>
         updatedAt (clone u r) = updatedAt r \<and>
         automation_id (clone u r) = automation_id r \<and>
         form_id (clone u r) = form_id r \<and>
         trigger_output (clone u r) = trigger_output r \<and>
         status (clone u r) = status r \<and>
         toReplay (clone u r) = False \<and>
         steps (clone u r) = map json_step (steps r) \<and>
         (list_all no_undefined (steps r) \<longrightarrow> steps (clone u r) = steps r) \<and>
         (\<forall>p. getActionOrPathsStep (clone u r) p None
                = map_sum id (map_option json_step) (getActionOrPathsStep r p None)) \<and>
         getStepsOutput (clone u r) = getStepsOutput r \<and>
         getErrorMessage (clone u r) = getErrorMessage r \<and>
         run_in h' n n' refs' (clone u r) \<and>
         run_in h' 0 n refs r \<and>
         (\<forall>lo hi ss. steps_in h' lo hi (step_refs refs') ss \<longrightarrow> ss = steps (clone u r)) \<and>
         (\<forall>lo hi ss. steps_in h' lo hi (step_refs refs) ss \<longrightarrow> ss = steps r) \<and>
         set (trigger_ref refs' # step_refs refs') \<inter> set (trigger_ref refs # step_refs refs) = {} \<and>
         (\<forall>h''. (\<forall>x. x < n \<longrightarrow> h'' x = h' x) \<longrightarrow> run_in h'' 0 n refs r) \<and>
         (\<forall>h''. (\<forall>x. n \<le> x \<and> x < n' \<longrightarrow> h'' x = h' x) \<longrightarrow> run_in h'' n n' refs' (clone u r))"
proof -
  have u: "u = next_uuid w" "next_uuid w' = Suc (next_uuid w)"
    using assms(3) by (auto simp: randomUUID_def)
  have ids: "run_id (clone u r) = next_uuid w" "run_id (clone u r) \<noteq> run_id r"
    "\<forall>v. v < next_uuid w \<longrightarrow> run_id (clone u r) \<noteq> v" "run_id (clone u r) < next_uuid w'"
    using u assms(4) by (auto simp: clone_def)
  have fields: "createdAt (clone u r) = createdAt r" "updatedAt (clone u r) = updatedAt r"
    "automation_id (clone u r) = automation_id r" "form_id (clone u r) = form_id r"
    "trigger_output (clone u r) = trigger_output r" "status (clone u r) = status r"
    "toReplay (clone u r) = False" "steps (clone u r) = map json_step (steps r)"
    by (simp_all add: clone_def)
  have same: "list_all no_undefined (steps r) \<longrightarrow> steps (clone u r) = steps r"
    by (simp add: clone_def list_all_iff map_idI json_step_no_undefined)
  have look: "\<forall>p. getActionOrPathsStep (clone u r) p None
                    = map_sum id (map_option json_step) (getActionOrPathsStep r p None)"
    by (simp add: getActionOrPathsStep_clone)
  have outs: "getStepsOutput (clone u r) = getStepsOutput r"
    by (simp add: getStepsOutput_def clone_def buildOutput_json)
  have errs: "getErrorMessage (clone u r) = getErrorMessage r"
    by (simp add: getErrorMessage_def clone_def getError_json)
  have new: "run_in h' n n' refs' (clone u r)" and old: "run_in h' 0 n refs r"
    using clone_refs_objects(3,4) [OF assms(1,2)] by simp_all
  have "\<forall>a\<in>set (trigger_ref refs' # step_refs refs'). n \<le> a"
    using new steps_in_bounds [of h' n n' "step_refs refs'" "steps (clone u r)"]
    by (auto simp: run_in_def)
  moreover have "\<forall>a\<in>set (trigger_ref refs # step_refs refs). a < n"
    using old steps_in_bounds [of h' 0 n "step_refs refs" "steps r"]
    by (auto simp: run_in_def)
  ultimately have apart:
    "set (trigger_ref refs' # step_refs refs') \<inter> set (trigger_ref refs # step_refs refs) = {}"
    by fastforce
  have only_new: "\<forall>lo hi ss. steps_in h' lo hi (step_refs refs') ss \<longrightarrow> ss = steps (clone u r)"
    using new store_unique(3) [of h' _ _ "step_refs refs'" _ n n' "steps (clone u r)"]
    by (auto simp: run_in_def)
  have only_old: "\<forall>lo hi ss. steps_in h' lo hi (step_refs refs) ss \<longrightarrow> ss = steps r"
    using old store_unique(3) [of h' _ _ "step_refs refs" _ 0 n "steps r"]
    by (auto simp: run_in_def)
  have keep_old: "\<forall>h''. (\<forall>x. x < n \<longrightarrow> h'' x = h' x) \<longrightarrow> run_in h'' 0 n refs r"
    using run_in_frame [OF _ old] by simp
  have keep_new: "\<forall>h''. (\<forall>x. n \<le> x \<and> x < n' \<longrightarrow> h'' x = h' x) \<longrightarrow> run_in h'' n n' refs' (clone u r)"
    using run_in_frame [OF _ new] by simp
  show ?thesis
    using ids fields same look outs errs new old only_new only_old apart keep_old keep_new
    by (intro conjI) assumption+
qed

theorem clone_deep_copy_witness:
  "run_in branch_store 0 4 branch_refs branch_run \<and>
   fst (clone_refs branch_run branch_store 4) = \<lparr>trigger_ref = 4, step_refs = [7]\<rparr> \<and>
   run_id (clone (fst (randomUUID late_world)) branch_run) = 9 \<and>
   run_id branch_run = 0 \<and>
   status (clone (fst (randomUUID late_world)) branch_run) = filtered \<and>
   steps (clone (fst (randomUUID late_world)) branch_run)
     = [branch ''s'' [way ''p'' True
          [ActionStep (http_schema ''a'') JNull Absent (Present (Error ''boom'')) 0 (Some 1)]]] \<and>
   getErrorMessage (clone (fst (randomUUID late_world)) branch_run) = Some ''boom'' \<and>
   run_in
     ((fst (snd (clone_refs branch_run branch_store 4)))
        (5 \<mapsto> ActionObj (http_schema ''a'') JNull (Present (JNum 1)) Absent 0 (Some 2)))
     0 4 branch_refs branch_run \<and>
   run_in
     ((fst (snd (clone_refs branch_run branch_store 4)))
        (1 \<mapsto> ActionObj (http_schema ''a'') JNull (Present (JNum 1)) Absent 0 (Some 2)))
     4 8 \<lparr>trigger_ref = 4, step_refs = [7]\<rparr> (clone (fst (randomUUID late_world)) branch_run) \<and>
   steps (clone (fst (randomUUID late_world))
            (run_with stopped
               [ActionStep (http_schema ''a'') JNull Absent (Present (Error ''boom'')) 0 (Some 1)]))
     = [ActionStep (http_schema ''a'') JNull Absent (Present (Error ''boom'')) 0 (Some 1)]"
proof -
  let ?h' = "branch_store
      (4 \<mapsto> TriggerObj (JObj []),
       5 \<mapsto> ActionObj (http_schema ''a'') JNull Absent (Present (Error ''boom'')) 0 (Some 1),
       6 \<mapsto> PathObj \<lparr>path_name = ''p'', path_filter = JNull\<rparr> JNull
              (JObj [(''canContinue'', JBool True)]) [5],
       7 \<mapsto> PathsObj \<lparr>ps_name = ''s'', ps_service = ''filter'', ps_action = ''split-into-paths''\<rparr>
              0 None [6])"
  let ?w = "ActionObj (http_schema ''a'') JNull (Present (JNum 1)) Absent 0 (Some 2)"
  have rep: "run_in branch_store 0 4 branch_refs branch_run"
    by (simp add: run_in_def branch_store_def branch_refs_def branch_run_def example_defs)
  have cl: "clone_refs branch_run branch_store 4 = (\<lparr>trigger_ref = 4, step_refs = [7]\<rparr>, ?h', 8)"
    by (simp add: clone_refs_def branch_run_def example_defs eval_nat_numeral)
  have id: "randomUUID late_world = (9, late_world\<lparr>next_uuid := 10\<rparr>)"
    by (simp add: randomUUID_def late_world_def)
  have lt: "run_id branch_run < next_uuid late_world"
    by (simp add: branch_run_def run_with_def late_world_def)
  have w5: "\<forall>x. x < 4 \<longrightarrow> (?h'(5 \<mapsto> ?w)) x = ?h' x"
    by simp
  have w1: "\<forall>x. 4 \<le> x \<and> x < 8 \<longrightarrow> (?h'(1 \<mapsto> ?w)) x = ?h' x"
    by simp
  note copy = clone_deep_copy [OF rep cl id lt]
  from copy have i: "run_id (clone 9 branch_run) = next_uuid late_world"
    by (elim conjE)
  from copy have st: "status (clone 9 branch_run) = status branch_run"
    by (elim conjE)
  from copy have ss: "steps (clone 9 branch_run) = map json_step (steps branch_run)"
    by (elim conjE)
  from copy have em: "getErrorMessage (clone 9 branch_run) = getErrorMessage branch_run"
    by (elim conjE)
  from copy have
    "\<forall>h''. (\<forall>x. x < 4 \<longrightarrow> h'' x = ?h' x) \<longrightarrow> run_in h'' 0 4 branch_refs branch_run"
    by (elim conjE)
  with w5 have k5: "run_in (?h'(5 \<mapsto> ?w)) 0 4 branch_refs branch_run"
    by blast
  from copy have
    "\<forall>h''. (\<forall>x. 4 \<le> x \<and> x < 8 \<longrightarrow> h'' x = ?h' x) \<longrightarrow>
            run_in h'' 4 8 \<lparr>trigger_ref = 4, step_refs = [7]\<rparr> (clone 9 branch_run)"
    by (elim conjE)
  with w1 have k1: "run_in (?h'(1 \<mapsto> ?w)) 4 8 \<lparr>trigger_ref = 4, step_refs = [7]\<rparr> (clone 9 branch_run)"
    by blast
  have vals: "next_uuid late_world = 9" "status branch_run = filtered" "run_id branch_run = 0"
    "map json_step (steps branch_run)
       = [branch ''s'' [way ''p'' True
            [ActionStep (http_schema ''a'') JNull Absent (Present (Error ''boom'')) 0 (Some 1)]]]"
    "getErrorMessage branch_run = Some ''boom''"
    by (simp_all add: late_world_def branch_run_def example_defs getErrorMessage_def)
  let ?a = "ActionStep (http_schema ''a'') JNull Absent (Present (Error ''boom'')) 0 (Some 1)"
  let ?g = "[0 \<mapsto> TriggerObj (JObj []),
             1 \<mapsto> ActionObj (http_schema ''a'') JNull Absent (Present (Error ''boom'')) 0 (Some 1)]"
  have rep2: "run_in ?g 0 2 \<lparr>trigger_ref = 0, step_refs = [1]\<rparr> (run_with stopped [?a])"
    by (simp add: run_in_def run_with_def)
  have cl2: "clone_refs (run_with stopped [?a]) ?g 2
               = (\<lparr>trigger_ref = 2, step_refs = [3]\<rparr>,
                  ?g(2 \<mapsto> TriggerObj (JObj []),
                     3 \<mapsto> ActionObj (http_schema ''a'') JNull Absent (Present (Error ''boom'')) 0 (Some 1)),
                  4)"
    by (simp add: clone_refs_def run_with_def eval_nat_numeral)
  have lt2: "run_id (run_with stopped [?a]) < next_uuid late_world"
    by (simp add: run_with_def late_world_def)
  have nu: "list_all no_undefined (steps (run_with stopped [?a]))"
    by (simp add: run_with_def)
  from clone_deep_copy [OF rep2 cl2 id lt2] have
    "list_all no_undefined (steps (run_with stopped [?a])) \<longrightarrow>
       steps (clone 9 (run_with stopped [?a])) = steps (run_with stopped [?a])"
    by (elim conjE)
  with nu have same: "steps (clone 9 (run_with stopped [?a])) = [?a]"
    by (simp add: run_with_def)
  show ?thesis
    using rep i st ss em k5 k1 vals same by (simp add: cl id)
qed

text \<open>
  C6 as stated fails: a run created at 5 and updated at 7 is cloned when the clock reads
  100, and the clone carries 5 and 7, not the time of the call. And the copy of a step that
  was started but has not finished lacks the \<^verbatim>\<open>output\<close> and \<^verbatim>\<open>error\<close> properties,
  which the original has with the value \<^verbatim>\<open>undefined\<close>.
\<close>

theorem clone_timestamps_counterexample:
  "clock late_world = 100 \<and>
   createdAt (clone (next_uuid late_world) (run_with playing [started ''a''])) = 5 \<and>
   updatedAt (clone (next_uuid late_world) (run_with playing [started ''a''])) = 7 \<and>
   createdAt (run_with playing [started ''a'']) = 5 \<and>
   updatedAt (run_with playing [started ''a'']) = 7 \<and>
   steps (run_with playing [started ''a''])
     = [ActionStep (http_schema ''a'') JNull Undefined Undefined 0 None] \<and>
   steps (clone (next_uuid late_world) (run_with playing [started ''a'']))
     = [ActionStep (http_schema ''a'') JNull Absent Absent 0 None]"
  by (simp add: late_world_def clone_def run_with_def started_def)

section \<open>Facts about the outputs a template reads\<close>

lemma find_step_filter: "find_step a ss = (case filter (\<lambda>s. schema_name s = a) ss of [] \<Rightarrow> None | s # rest \<Rightarrow> Some s)"
  by (induction ss) auto

lemma find_path_filter: "find_path a ps = (case filter (\<lambda>q. path_schema_name q = a) ps of [] \<Rightarrow> None | q # rest \<Rightarrow> Some q)"
  by (induction ps) auto

lemma short_rev: "length xs \<le> 1 \<Longrightarrow> rev xs = xs"
  by (cases xs) auto

lemma one_named_rev: "one_named a ss \<Longrightarrow> find_step a (rev ss) = find_step a ss"
  using short_rev [of "filter (\<lambda>s. schema_name s = a) ss"]
  by (simp add: find_step_filter one_named_def rev_filter [symmetric])

lemma one_path_named_rev: "one_path_named a ps \<Longrightarrow> find_path a (rev ps) = find_path a ps"
  using short_rev [of "filter (\<lambda>q. path_schema_name q = a) ps"]
  by (simp add: find_path_filter one_path_named_def rev_filter [symmetric])

lemma filter_names_update_first:
  "\<forall>s. schema_name (f s) = schema_name s \<Longrightarrow>
   length (filter (\<lambda>s. schema_name s = a) (update_first_step x f ss))
     = length (filter (\<lambda>s. schema_name s = a) ss)"
  by (induction ss) auto

lemma one_named_update_first:
  "\<forall>s. schema_name (f s) = schema_name s \<Longrightarrow>
   one_named a (update_first_step x f ss) = one_named a ss"
  by (simp add: one_named_def filter_names_update_first)

lemma filter_names_update_first_path:
  "\<forall>q. path_schema_name (f q) = path_schema_name q \<Longrightarrow>
   length (filter (\<lambda>q. path_schema_name q = a) (update_first_path x f ps))
     = length (filter (\<lambda>q. path_schema_name q = a) ps)"
  by (induction ps) auto

lemma one_path_named_update_first:
  "\<forall>q. path_schema_name (f q) = path_schema_name q \<Longrightarrow>
   one_path_named a (update_first_path x f ps) = one_path_named a ps"
  by (simp add: one_path_named_def filter_names_update_first_path)

lemma one_named_json: "one_named a (map json_step ss) = one_named a ss"
  by (simp add: one_named_def filter_map comp_def)

lemma one_path_named_json: "one_path_named a (map json_path ps) = one_path_named a ps"
  by (simp add: one_path_named_def filter_map comp_def)

lemma buildOutput_lookup:
  "map_of (buildOutput acc ss) k
     = (case find_step k (rev ss) of Some s \<Rightarrow> Some (step_value s) | None \<Rightarrow> map_of acc k)"
proof (induction ss arbitrary: acc)
  case Nil
  show ?case by simp
next
  case (Cons x xs)
  show ?case
    by (cases x) (auto simp: Cons.IH find_step_append update_conv' split: option.splits)
qed

lemma buildPaths_lookup:
  "map_of (buildPaths acc ps) k
     = (case find_path k (rev ps) of Some q \<Rightarrow> Some (path_value q) | None \<Rightarrow> map_of acc k)"
proof (induction ps arbitrary: acc)
  case Nil
  show ?case by simp
next
  case (Cons x xs)
  have fa: "find_path a (qs @ [n])
              = (case find_path a qs of Some q \<Rightarrow> Some q
                 | None \<Rightarrow> if path_schema_name n = a then Some n else None)" for a qs n
    by (induction qs) auto
  show ?case
    by (cases x) (auto simp: Cons.IH fa update_conv' path_value_def split: option.splits)
qed

lemma unshadowed_steps_only: "steps r' = steps r \<Longrightarrow> unshadowed r' segs = unshadowed r segs"
  by (induction r segs rule: unshadowed.induct) simp_all

lemma unshadowed_clone: "unshadowed (clone u r) segs = unshadowed r segs"
proof (induction r segs rule: unshadowed.induct)
  case (1 r c)
  show ?case by (simp add: clone_def one_named_json)
next
  case (2 r a pn c)
  show ?case
  proof (cases "find_step a (steps r)")
    case None
    then show ?thesis by (simp add: clone_def one_named_json find_step_json)
  next
    case (Some s)
    show ?thesis
    proof (cases s)
      case ActionStep
      with Some show ?thesis by (simp add: clone_def one_named_json find_step_json)
    next
      case (PathsStep sch st fin ps)
      with Some show ?thesis
        by (cases "find_path pn ps")
           (simp_all add: clone_def one_named_json find_step_json one_path_named_json
              find_path_json)
    qed
  qed
qed simp_all

lemma unshadowed_shape:
  obtains (one) c where "segs = [c]"
  | (three) a pn c where "segs = [a, pn, c]"
  | (other) "\<forall>r. \<not> unshadowed r segs"
proof (cases "(run_with playing [], segs)" rule: unshadowed.cases)
qed auto

lemma unshadowed_modifyStep:
  assumes nm: "\<forall>s. schema_name (f s) = schema_name s"
  shows "unshadowed (modifyStep f r p None) (split_dot p) = unshadowed r (split_dot p)"
proof (cases "split_dot p" rule: unshadowed_shape)
  case (one c)
  then have sp: "split_dot p = [c]" by simp
  show ?thesis
    using nm by (simp add: sp modifyStep_single [OF sp] one_named_update_first)
next
  case (three a pn c)
  then have sp: "split_dot p = [a, pn, c]" by simp
  have spc: "split_dot c = [c]"
    using split_dot_segments_dotfree [of c p] sp by (simp add: split_dot_dotfree)
  have ks: "\<forall>s. schema_name (in_path pn (update_first_step c f) s) = schema_name s"
    using keeps_shape_in_path [of pn "update_first_step c f"] by (simp add: keeps_shape_def)
  show ?thesis
  proof (cases "find_step a (steps r)")
    case None
    then show ?thesis by (simp add: sp modifyStep_dotted [OF sp])
  next
    case (Some s)
    show ?thesis
    proof (cases s)
      case ActionStep
      with Some show ?thesis by (simp add: sp modifyStep_dotted [OF sp])
    next
      case (PathsStep sch st fin ps)
      show ?thesis
      proof (cases "find_path pn ps")
        case None
        with Some PathsStep show ?thesis by (simp add: sp modifyStep_dotted [OF sp])
      next
        case (Some q)
        with \<open>find_step a (steps r) = Some s\<close> PathsStep nm ks show ?thesis
          by (simp add: sp modifyStep_dotted [OF sp] modifyStep_single [OF spc]
                one_named_update_first find_step_update_first one_path_named_update_first
                find_path_update_first)
      qed
    qed
  qed
next
  case other
  then show ?thesis by simp
qed

lemma output_at_cases:
  "output_at r p = Some v \<Longrightarrow>
   \<exists>sch inp err st fin.
     getActionOrPathsStep r p None = Inr (Some (ActionStep sch inp (Present v) err st fin))"
  by (auto simp: output_at_def split: sum.splits option.splits step.splits field.splits)

lemma seen_output:
  assumes un: "unshadowed r (split_dot p)"
    and out: "output_at r p = Some v"
    and nn: "v \<noteq> JNull"
  shows "prop_at (split_dot p) (getStepsOutput r) = Some v"
proof -
  from output_at_cases [OF out] obtain sch inp err st fin where
    found: "getActionOrPathsStep r p None = Inr (Some (ActionStep sch inp (Present v) err st fin))"
    by blast
  show ?thesis
  proof (cases "split_dot p" rule: unshadowed_shape)
    case (one c)
    then have sp: "split_dot p = [c]" by simp
    from found have f: "find_step c (steps r) = Some (ActionStep sch inp (Present v) err st fin)"
      by (simp add: getActionOrPathsStep_single [OF sp])
    from un have c: "c \<noteq> ''trigger''" and o: "one_named c (steps r)"
      by (simp_all add: sp)
    show ?thesis
      using c f nn one_named_rev [OF o]
      by (simp add: sp getStepsOutput_def update_conv' buildOutput_lookup)
  next
    case (three a pn c)
    then have sp: "split_dot p = [a, pn, c]" by simp
    have spc: "split_dot c = [c]"
      using split_dot_segments_dotfree [of c p] sp by (simp add: split_dot_dotfree)
    from found obtain psch pst pfin ps q where
      top: "find_step a (steps r) = Some (PathsStep psch pst pfin ps)"
      and pth: "find_path pn ps = Some q"
      by (auto simp: getActionOrPathsStep_dotted [OF sp] split: option.splits step.splits)
    from found top pth have f: "find_step c (actions q) = Some (ActionStep sch inp (Present v) err st fin)"
      by (simp add: getActionOrPathsStep_dotted [OF sp] getActionOrPathsStep_single [OF spc])
    from un top pth have a: "a \<noteq> ''trigger''" and oa: "one_named a (steps r)"
      and op: "one_path_named pn ps" and oc: "one_named c (actions q)"
      by (simp_all add: sp)
    show ?thesis
      using a top pth f nn one_named_rev [OF oa] one_path_named_rev [OF op] one_named_rev [OF oc]
      by (simp add: sp getStepsOutput_def update_conv' buildOutput_lookup buildPaths_lookup
            path_value_def)
  next
    case other
    with un show ?thesis by simp
  qed
qed

section \<open>Facts about the multi-item loop\<close>

lemma output_at_found:
  "getActionOrPathsStep r p None = Inr (Some (ActionStep sch inp (Present v) err st fin)) \<Longrightarrow>
   output_at r p = Some v"
  by (simp add: output_at_def)

lemma record_on_clone:
  assumes found: "getActionOrPathsStep r p None = Inr (Some (ActionStep sch inp (Present v0) err st fin))"
  shows "\<exists>c. successActionStep t1 t2 p v (clone u r) = Inr c \<and>
             output_at c p = Some v \<and> automation_id c = automation_id r \<and>
             run_id c = u \<and> status c = status r \<and>
             unshadowed c (split_dot p) = unshadowed r (split_dot p)"
proof -
  let ?err = "if err = Undefined then Absent else err"
  have on_clone: "getActionOrPathsStep (clone u r) p None
                    = Inr (Some (ActionStep sch inp (Present v0) ?err st fin))"
    using found by (simp add: getActionOrPathsStep_clone)
  let ?c = "(modifyStep (\<lambda>s. set_finishedAt t1 (set_output v s)) (clone u r) p None)\<lparr>updatedAt := t2\<rparr>"
  have 1: "successActionStep t1 t2 p v (clone u r) = Inr ?c"
    using successActionStep_found(1) [OF on_clone] .
  have 2: "getActionOrPathsStep ?c p None
             = Inr (Some (ActionStep sch inp (Present v) ?err st (Some t1)))"
    using successActionStep_found(2) [OF on_clone, where ?t1.0 = t1 and v = v and ?t2.0 = t2] by simp
  have 3: "automation_id ?c = automation_id r" "run_id ?c = u" "status ?c = status r"
    by (simp_all add: modifyStep_fields modifyStep_status clone_def)
  have "unshadowed ?c (split_dot p)
          = unshadowed (modifyStep (\<lambda>s. set_finishedAt t1 (set_output v s)) (clone u r) p None)
              (split_dot p)"
    by (rule unshadowed_steps_only) simp
  also have "\<dots> = unshadowed (clone u r) (split_dot p)"
    using keeps_shape_finish_output [of t1 v]
    by (intro unshadowed_modifyStep) (simp add: keeps_shape_def)
  finally have 4: "unshadowed ?c (split_dot p) = unshadowed r (split_dot p)"
    by (simp add: unshadowed_clone)
  show ?thesis
    using 1 output_at_found [OF 2] 3 4 by blast
qed

lemma fanout_clones:
  assumes found: "getActionOrPathsStep r p None = Inr (Some (ActionStep sch inp (Present v0) err st fin))"
  shows "0 < i \<Longrightarrow>
         \<exists>cs w'. fanout p ds i r w = (None, r, w') \<and>
                  repo w' = repo w @ map Create cs \<and> alerts w' = alerts w \<and>
                  length cs = length ds \<and>
                  (\<forall>k<length ds.
                      automation_id (cs ! k) = automation_id r \<and>
                      run_id (cs ! k) = next_uuid w + k \<and>
                      status (cs ! k) = status r \<and>
                      unshadowed (cs ! k) (split_dot p) = unshadowed r (split_dot p) \<and>
                      output_at (cs ! k) p = Some (with_index (ds ! k) (i + k)))"
proof (induction ds arbitrary: i w)
  case Nil
  show ?case by simp
next
  case (Cons d ds)
  let ?w1 = "w\<lparr>next_uuid := Suc (next_uuid w)\<rparr>"
  obtain c where c: "successActionStep (clock ?w1) (Suc (clock ?w1)) p (with_index d i)
                       (clone (next_uuid w) r) = Inr c"
    and c_out: "output_at c p = Some (with_index d i)"
    and c_id: "automation_id c = automation_id r" "run_id c = next_uuid w" "status c = status r"
      "unshadowed c (split_dot p) = unshadowed r (split_dot p)"
    using record_on_clone [OF found] by blast
  let ?w2 = "runRepository_create c (ticks 2 ?w1)"
  from Cons.IH [of "Suc i" ?w2]
  obtain cs w' where rest: "fanout p ds (Suc i) r ?w2 = (None, r, w')"
    and repo': "repo w' = repo ?w2 @ map Create cs"
    and alerts': "alerts w' = alerts ?w2"
    and len: "length cs = length ds"
    and each: "\<forall>k<length ds.
                  automation_id (cs ! k) = automation_id r \<and>
                  run_id (cs ! k) = next_uuid ?w2 + k \<and>
                  status (cs ! k) = status r \<and>
                  unshadowed (cs ! k) (split_dot p) = unshadowed r (split_dot p) \<and>
                  output_at (cs ! k) p = Some (with_index (ds ! k) (Suc i + k))"
    by auto
  have run: "fanout p (d # ds) i r w = (None, r, w')"
    using Cons.prems c rest by (simp add: randomUUID_def)
  have w2: "repo ?w2 = repo w @ [Create c]" "alerts ?w2 = alerts w" "next_uuid ?w2 = Suc (next_uuid w)"
    by (simp_all add: runRepository_create_def ticks_def)
  have all: "\<forall>k<length (d # ds).
                automation_id ((c # cs) ! k) = automation_id r \<and>
                run_id ((c # cs) ! k) = next_uuid w + k \<and>
                status ((c # cs) ! k) = status r \<and>
                unshadowed ((c # cs) ! k) (split_dot p) = unshadowed r (split_dot p) \<and>
                output_at ((c # cs) ! k) p = Some (with_index ((d # ds) ! k) (i + k))"
  proof (intro allI impI)
    fix k assume "k < length (d # ds)"
    then show "automation_id ((c # cs) ! k) = automation_id r \<and>
                run_id ((c # cs) ! k) = next_uuid w + k \<and>
                status ((c # cs) ! k) = status r \<and>
                unshadowed ((c # cs) ! k) (split_dot p) = unshadowed r (split_dot p) \<and>
                output_at ((c # cs) ! k) p = Some (with_index ((d # ds) ! k) (i + k))"
      using c_out c_id each w2(3) by (cases k) auto
  qed
  have "repo w' = repo w @ map Create (c # cs)" "alerts w' = alerts w" "length (c # cs) = length (d # ds)"
    using repo' alerts' len w2 by simp_all
  with run all show ?case by blast
qed

text \<open>
  The whole multi-item branch, when the step found at the action's path is an action step
  that has its output property.
\<close>

lemma fanout_items:
  assumes found: "getActionOrPathsStep r1 p None = Inr (Some (ActionStep sch inp out err st fin))"
    and key: "has_key out"
  shows "\<exists>r2 w2 cs.
           fanout p (d # ds) 0 r1 w1 = (None, r2, w2) \<and>
           successActionStep (clock w1) (Suc (clock w1)) p (with_index d 0) r1 = Inr r2 \<and>
           getActionOrPathsStep r2 p None
             = Inr (Some (ActionStep sch inp (Present (with_index d 0)) err st (Some (clock w1)))) \<and>
           automation_id r2 = automation_id r1 \<and> status r2 = status r1 \<and>
           unshadowed r2 (split_dot p) = unshadowed r1 (split_dot p) \<and>
           repo w2 = repo w1 @ Update r2 # map Create cs \<and> alerts w2 = alerts w1 \<and>
           length cs = length ds \<and>
           (\<forall>k<length ds.
               automation_id (cs ! k) = automation_id r2 \<and>
               run_id (cs ! k) = next_uuid w1 + k \<and>
               status (cs ! k) = status r2 \<and>
               unshadowed (cs ! k) (split_dot p) = unshadowed r2 (split_dot p) \<and>
               output_at (cs ! k) p = Some (with_index (ds ! k) (Suc k)))"
proof -
  let ?r2 = "(modifyStep (\<lambda>s. set_finishedAt (clock w1) (set_output (with_index d 0) s)) r1 p None)
               \<lparr>updatedAt := Suc (clock w1)\<rparr>"
  have 1: "successActionStep (clock w1) (Suc (clock w1)) p (with_index d 0) r1 = Inr ?r2"
    using successActionStep_found(1) [OF found] .
  have 2: "getActionOrPathsStep ?r2 p None
             = Inr (Some (ActionStep sch inp (Present (with_index d 0)) err st (Some (clock w1))))"
    using successActionStep_found(2)
            [OF found, where ?t1.0 = "clock w1" and v = "with_index d 0" and ?t2.0 = "Suc (clock w1)"] key
    by simp
  have 3: "automation_id ?r2 = automation_id r1" "status ?r2 = status r1"
    by (simp_all add: modifyStep_fields modifyStep_status)
  have "unshadowed ?r2 (split_dot p)
          = unshadowed (modifyStep (\<lambda>s. set_finishedAt (clock w1) (set_output (with_index d 0) s)) r1 p None)
              (split_dot p)"
    by (rule unshadowed_steps_only) simp
  also have "\<dots> = unshadowed r1 (split_dot p)"
    using keeps_shape_finish_output [of "clock w1" "with_index d 0"]
    by (intro unshadowed_modifyStep) (simp add: keeps_shape_def)
  finally have 4: "unshadowed ?r2 (split_dot p) = unshadowed r1 (split_dot p)" .
  let ?w = "runRepository_update ?r2 (ticks 2 w1)"
  from fanout_clones [OF 2, of 1 ds ?w]
  obtain cs w' where rest: "fanout p ds 1 ?r2 ?w = (None, ?r2, w')"
    and repo': "repo w' = repo ?w @ map Create cs"
    and alerts': "alerts w' = alerts ?w"
    and len: "length cs = length ds"
    and each: "\<forall>k<length ds.
                  automation_id (cs ! k) = automation_id ?r2 \<and>
                  run_id (cs ! k) = next_uuid ?w + k \<and>
                  status (cs ! k) = status ?r2 \<and>
                  unshadowed (cs ! k) (split_dot p) = unshadowed ?r2 (split_dot p) \<and>
                  output_at (cs ! k) p = Some (with_index (ds ! k) (1 + k))"
    by auto
  have run: "fanout p (d # ds) 0 r1 w1 = (None, ?r2, w')"
    using 1 rest by simp
  have w: "repo ?w = repo w1 @ [Update ?r2]" "alerts ?w = alerts w1" "next_uuid ?w = next_uuid w1"
    by (simp_all add: runRepository_update_def ticks_def)
  have "repo w' = repo w1 @ Update ?r2 # map Create cs" "alerts w' = alerts w1"
    using repo' alerts' w by simp_all
  with run 1 2 3 4 len each w(3) show ?thesis
    by (intro exI [of _ ?r2] exI [of _ w'] exI [of _ cs]) simp
qed

section \<open>The multi-item fan-out\<close>

lemma runAction_array:
  assumes "execute_action C act (action_path pathName (name act)) r w = (Data (JArr items), r1, w1)"
  shows "runAction C ex act pathName r w =
           (if items = []
            then returning_false (filterRun (action_path pathName (name act)) (JArr items) r1 w1)
            else (case fanout (action_path pathName (name act)) items 0 r1 w1 of
                    (Some thrown, r2, w2) \<Rightarrow> (Inl thrown, r2, w2)
                  | (None, r2, w2) \<Rightarrow> (Inr True, r2, w2)))"
  using assms by (simp add: runAction_def Let_def)

lemma runAction_items:
  assumes "execute_action C act (action_path pathName (name act)) r w = (Data (JArr items), r1, w1)"
    and "getActionOrPathsStep r1 (action_path pathName (name act)) None
           = Inr (Some (ActionStep sch inp out err st fin))"
    and "has_key out"
    and "items \<noteq> []"
  shows "\<exists>r2 w2 cs.
           runAction C ex act pathName r w = (Inr True, r2, w2) \<and>
           successActionStep (clock w1) (Suc (clock w1)) (action_path pathName (name act))
               (with_index (hd items) 0) r1 = Inr r2 \<and>
           output_at r2 (action_path pathName (name act)) = Some (with_index (hd items) 0) \<and>
           unshadowed r2 (split_dot (action_path pathName (name act)))
             = unshadowed r1 (split_dot (action_path pathName (name act))) \<and>
           repo w2 = repo w1 @ Update r2 # map Create cs \<and>
           length cs = length items - 1 \<and>
           (\<forall>k<length cs.
               automation_id (cs ! k) = automation_id r2 \<and>
               run_id (cs ! k) = next_uuid w1 + k \<and>
               status (cs ! k) = status r2 \<and>
               unshadowed (cs ! k) (split_dot (action_path pathName (name act)))
                 = unshadowed r2 (split_dot (action_path pathName (name act))) \<and>
               output_at (cs ! k) (action_path pathName (name act))
                 = Some (with_index (items ! Suc k) (Suc k)))"
proof -
  let ?p = "action_path pathName (name act)"
  from assms(4) obtain d ds where items: "items = d # ds" by (cases items) auto
  from fanout_items [OF assms(2,3), of d ds w1]
  obtain r2 w2 cs where
    run: "fanout ?p (d # ds) 0 r1 w1 = (None, r2, w2)"
    and rec: "successActionStep (clock w1) (Suc (clock w1)) ?p (with_index d 0) r1 = Inr r2"
    and got: "getActionOrPathsStep r2 ?p None
                = Inr (Some (ActionStep sch inp (Present (with_index d 0)) err st (Some (clock w1))))"
    and un: "unshadowed r2 (split_dot ?p) = unshadowed r1 (split_dot ?p)"
    and repo: "repo w2 = repo w1 @ Update r2 # map Create cs"
    and len: "length cs = length ds"
    and each: "\<forall>k<length ds.
                 automation_id (cs ! k) = automation_id r2 \<and>
                 run_id (cs ! k) = next_uuid w1 + k \<and>
                 status (cs ! k) = status r2 \<and>
                 unshadowed (cs ! k) (split_dot ?p) = unshadowed r2 (split_dot ?p) \<and>
                 output_at (cs ! k) ?p = Some (with_index (ds ! k) (Suc k))"
    by blast
  have ra: "runAction C ex act pathName r w = (Inr True, r2, w2)"
    using runAction_array [OF assms(1), of ex] items run by simp
  show ?thesis
    using ra rec output_at_found [OF got] un repo len each items
    by (intro exI [of _ r2] exI [of _ w2] exI [of _ cs]) simp
qed


lemmas dispatch_eval =
  execute_action_def dispatch_def fillInputData_def or_empty_def runRepository_update_def
  runRepository_create_def sendAlertEmail_def ticks_def getStepsOutput_def new_action_step_def
  startActionPathsStep_def action_path_def



section \<open>The index key of fanned-out outputs\<close>

lemma get_prop_with_index: "get_prop ''index'' (with_index d i) = Some (JNum (int i + 1))"
  by (simp add: with_index_def update_conv')

text \<open>
  C10 (amended). In the multi-item branch, when the step found at the action's path is an
  action step that has its output property, the output recorded on the run is the first
  element merged with \<^verbatim>\<open>index: 1\<close>, also when the array has a single element, and the
  output recorded on the k-th clone is the element after it merged with its 1-based
  position; every recorded output has the \<^verbatim>\<open>index\<close> key. When nothing overwrites the
  action's entry (its name, and for an action in a path the names of the paths step and of
  the path, occur once in their lists, and the top-level key is not \<^verbatim>\<open>trigger\<close>), the
  result of \<open>getStepsOutput\<close> holds that output, index included, under the action's name
  on the run and on every clone; for an action in a path, under the names of the paths
  step, the path and the action.
\<close>

theorem fan_out_outputs_seen_with_index:
  assumes "execute_action C act (action_path pathName (name act)) r w = (Data (JArr items), r1, w1)"
    and "getActionOrPathsStep r1 (action_path pathName (name act)) None
           = Inr (Some (ActionStep sch inp out err st fin))"
    and "has_key out"
    and "items \<noteq> []"
  shows "\<exists>r2 w2 cs.
           runAction C ex act pathName r w = (Inr True, r2, w2) \<and>
           repo w2 = repo w1 @ Update r2 # map Create cs \<and>
           length cs = length items - 1 \<and>
           output_at r2 (action_path pathName (name act))
             = Some (JObj (AList.update ''index'' (JNum 1) (spread (hd items)))) \<and>
           (\<forall>k<length cs.
               output_at (cs ! k) (action_path pathName (name act))
                 = Some (JObj (AList.update ''index'' (JNum (int k + 2)) (spread (items ! Suc k))))) \<and>
           (\<forall>k<length items.
               get_prop ''index'' (with_index (items ! k) k) = Some (JNum (int k + 1))) \<and>
           (unshadowed r1 (split_dot (action_path pathName (name act))) \<longrightarrow>
              prop_at (split_dot (action_path pathName (name act))) (getStepsOutput r2)
                = Some (JObj (AList.update ''index'' (JNum 1) (spread (hd items)))) \<and>
              (\<forall>k<length cs.
                  prop_at (split_dot (action_path pathName (name act))) (getStepsOutput (cs ! k))
                    = Some (JObj (AList.update ''index'' (JNum (int k + 2))
                                    (spread (items ! Suc k))))))"
proof -
  let ?p = "action_path pathName (name act)"
  from runAction_items [OF assms, of ex]
  obtain r2 w2 cs where
    ra: "runAction C ex act pathName r w = (Inr True, r2, w2)"
    and out: "output_at r2 ?p = Some (with_index (hd items) 0)"
    and un: "unshadowed r2 (split_dot ?p) = unshadowed r1 (split_dot ?p)"
    and repo: "repo w2 = repo w1 @ Update r2 # map Create cs"
    and len: "length cs = length items - 1"
    and each: "\<forall>k<length cs.
                 unshadowed (cs ! k) (split_dot ?p) = unshadowed r2 (split_dot ?p) \<and>
                 output_at (cs ! k) ?p = Some (with_index (items ! Suc k) (Suc k))"
    by blast
  have idx: "\<forall>k<length items. get_prop ''index'' (with_index (items ! k) k) = Some (JNum (int k + 1))"
    by (simp add: get_prop_with_index)
  have each': "\<forall>k<length cs.
                 output_at (cs ! k) ?p
                   = Some (JObj (AList.update ''index'' (JNum (int k + 2)) (spread (items ! Suc k))))"
    using each by (simp add: with_index_def add.commute)
  have out': "output_at r2 ?p = Some (JObj (AList.update ''index'' (JNum 1) (spread (hd items))))"
    using out by (simp add: with_index_def)
  have seen: "prop_at (split_dot ?p) (getStepsOutput r2)
                = Some (JObj (AList.update ''index'' (JNum 1) (spread (hd items))))"
    if "unshadowed r1 (split_dot ?p)"
    using seen_output [OF _ out'] that un by simp
  have seen_clone: "prop_at (split_dot ?p) (getStepsOutput (cs ! k))
                = Some (JObj (AList.update ''index'' (JNum (int k + 2)) (spread (items ! Suc k))))"
    if "unshadowed r1 (split_dot ?p)" "k < length cs" for k
  proof -
    have u: "unshadowed (cs ! k) (split_dot ?p)"
      using that un each by simp
    have o: "output_at (cs ! k) ?p
               = Some (JObj (AList.update ''index'' (JNum (int k + 2)) (spread (items ! Suc k))))"
      using that each' by simp
    show ?thesis
      using seen_output [OF u o] by simp
  qed
  show ?thesis
    using ra repo len out' each' idx seen seen_clone
    by (intro exI [of _ r2] exI [of _ w2] exI [of _ cs]) blast
qed

theorem fan_out_outputs_seen_with_index_witness:
  "(\<exists>r2 w2 cs.
      runAction echo_collab no_exec
          (items_action ''h'' [JObj [(''x'', JNum 1)], JStr ''ab''])
          None (run_with playing []) fresh_world = (Inr True, r2, w2) \<and>
      length cs = 1 \<and>
      output_at r2 ''h'' = Some (JObj [(''x'', JNum 1), (''index'', JNum 1)]) \<and>
      output_at (cs ! 0) ''h''
        = Some (JObj [(''0'', JStr ''a''), (''1'', JStr ''b''), (''index'', JNum 2)]) \<and>
      get_prop ''h'' (getStepsOutput r2) = Some (JObj [(''x'', JNum 1), (''index'', JNum 1)]) \<and>
      get_prop ''h'' (getStepsOutput (cs ! 0))
        = Some (JObj [(''0'', JStr ''a''), (''1'', JStr ''b''), (''index'', JNum 2)])) \<and>
   (\<exists>r2 w2 cs.
      runAction echo_collab no_exec
          (items_action ''h'' [JObj [(''x'', JNum 1)], JObj [(''x'', JNum 2)]])
          (Some ''s.p'') (run_with playing [branch ''s'' [way ''p'' True []]]) fresh_world
        = (Inr True, r2, w2) \<and>
      length cs = 1 \<and>
      prop_at [''s'', ''p'', ''h''] (getStepsOutput r2)
        = Some (JObj [(''x'', JNum 1), (''index'', JNum 1)]) \<and>
      prop_at [''s'', ''p'', ''h''] (getStepsOutput (cs ! 0))
        = Some (JObj [(''x'', JNum 2), (''index'', JNum 2)]))"
proof (intro conjI)
  let ?items = "[JObj [(''x'', JNum 1)], JStr ''ab'']"
  let ?act = "items_action ''h'' ?items"
  let ?r1 = "(run_with playing [ActionStep ?act (JArr ?items) Undefined Undefined 10 None])
               \<lparr>updatedAt := 11\<rparr>"
  let ?w1 = "\<lparr>clock = 12, next_uuid = 1, repo = [Update ?r1], alerts = []\<rparr>"
  have p: "action_path None (name ?act) = ''h''"
    by (simp add: action_path_def items_action_def)
  have h1: "execute_action echo_collab ?act (action_path None (name ?act)) (run_with playing [])
              fresh_world = (Data (JArr ?items), ?r1, ?w1)"
    by (simp add: dispatch_eval echo_collab_def items_action_def fresh_world_def run_with_def
          path_eval)
  have h2: "getActionOrPathsStep ?r1 (action_path None (name ?act)) None
              = Inr (Some (ActionStep ?act (JArr ?items) Undefined Undefined 10 None))"
    by (simp add: action_path_def path_eval run_with_def items_action_def)
  have h3: "has_key (Undefined :: json field)" by simp
  have ne: "?items \<noteq> []" by simp
  have un: "unshadowed ?r1 (split_dot (action_path None (name ?act)))"
    by (simp add: action_path_def run_with_def items_action_def one_named_def)
  have ch: "char_of (48 :: nat) = CHR ''0''" "char_of (49 :: nat) = CHR ''1''"
    by code_simp+
  have sn: "show_nat 0 = ''0''" "show_nat 1 = ''1''"
    using ch by (simp_all add: show_nat.simps)
  from fan_out_outputs_seen_with_index [OF h1 h2 h3 ne, of no_exec] un
  obtain r2 w2 cs where
    "runAction echo_collab no_exec ?act None (run_with playing []) fresh_world = (Inr True, r2, w2)"
    "length cs = length ?items - 1"
    "output_at r2 (action_path None (name ?act))
       = Some (JObj (AList.update ''index'' (JNum 1) (spread (hd ?items))))"
    "\<forall>k<length cs.
        output_at (cs ! k) (action_path None (name ?act))
          = Some (JObj (AList.update ''index'' (JNum (int k + 2)) (spread (?items ! Suc k))))"
    "prop_at (split_dot (action_path None (name ?act))) (getStepsOutput r2)
       = Some (JObj (AList.update ''index'' (JNum 1) (spread (hd ?items))))"
    "\<forall>k<length cs.
        prop_at (split_dot (action_path None (name ?act))) (getStepsOutput (cs ! k))
          = Some (JObj (AList.update ''index'' (JNum (int k + 2)) (spread (?items ! Suc k))))"
    by blast
  then show "\<exists>r2 w2 cs.
      runAction echo_collab no_exec ?act None (run_with playing []) fresh_world = (Inr True, r2, w2) \<and>
      length cs = 1 \<and>
      output_at r2 ''h'' = Some (JObj [(''x'', JNum 1), (''index'', JNum 1)]) \<and>
      output_at (cs ! 0) ''h''
        = Some (JObj [(''0'', JStr ''a''), (''1'', JStr ''b''), (''index'', JNum 2)]) \<and>
      get_prop ''h'' (getStepsOutput r2) = Some (JObj [(''x'', JNum 1), (''index'', JNum 1)]) \<and>
      get_prop ''h'' (getStepsOutput (cs ! 0))
        = Some (JObj [(''0'', JStr ''a''), (''1'', JStr ''b''), (''index'', JNum 2)])"
    using sn
    by (intro exI [of _ r2] exI [of _ w2] exI [of _ cs])
       (auto simp: action_path_def items_action_def upt_conv_Cons split: option.splits)
next
  let ?items = "[JObj [(''x'', JNum 1)], JObj [(''x'', JNum 2)]]"
  let ?act = "items_action ''h'' ?items"
  let ?r = "run_with playing [branch ''s'' [way ''p'' True []]]"
  let ?step = "ActionStep ?act (JArr ?items) Undefined Undefined 10 None"
  let ?r1 = "(run_with playing [branch ''s'' [way ''p'' True [?step]]])\<lparr>updatedAt := 11\<rparr>"
  let ?w1 = "\<lparr>clock = 12, next_uuid = 1, repo = [Update ?r1], alerts = []\<rparr>"
  have p: "action_path (Some ''s.p'') (name ?act) = ''s.p.h''"
    by (simp add: action_path_def items_action_def)
  have sp: "split_dot ''s.p.h'' = [''s'', ''p'', ''h'']"
    by simp
  have h1: "execute_action echo_collab ?act (action_path (Some ''s.p'') (name ?act)) ?r
              fresh_world = (Data (JArr ?items), ?r1, ?w1)"
    by (simp add: dispatch_eval echo_collab_def items_action_def fresh_world_def example_defs
          path_eval)
  have h2: "getActionOrPathsStep ?r1 (action_path (Some ''s.p'') (name ?act)) None = Inr (Some ?step)"
    by (simp add: action_path_def path_eval example_defs items_action_def)
  have h3: "has_key (Undefined :: json field)" by simp
  have ne: "?items \<noteq> []" by simp
  have un: "unshadowed ?r1 (split_dot (action_path (Some ''s.p'') (name ?act)))"
    by (simp add: action_path_def example_defs items_action_def one_named_def one_path_named_def)
  from fan_out_outputs_seen_with_index [OF h1 h2 h3 ne, of no_exec] un
  obtain r2 w2 cs where
    "runAction echo_collab no_exec ?act (Some ''s.p'') ?r fresh_world = (Inr True, r2, w2)"
    "length cs = length ?items - 1"
    "prop_at (split_dot (action_path (Some ''s.p'') (name ?act))) (getStepsOutput r2)
       = Some (JObj (AList.update ''index'' (JNum 1) (spread (hd ?items))))"
    "\<forall>k<length cs.
        prop_at (split_dot (action_path (Some ''s.p'') (name ?act))) (getStepsOutput (cs ! k))
          = Some (JObj (AList.update ''index'' (JNum (int k + 2)) (spread (?items ! Suc k))))"
    by blast
  then show "\<exists>r2 w2 cs.
      runAction echo_collab no_exec ?act (Some ''s.p'') ?r fresh_world = (Inr True, r2, w2) \<and>
      length cs = 1 \<and>
      prop_at [''s'', ''p'', ''h''] (getStepsOutput r2)
        = Some (JObj [(''x'', JNum 1), (''index'', JNum 1)]) \<and>
      prop_at [''s'', ''p'', ''h''] (getStepsOutput (cs ! 0))
        = Some (JObj [(''x'', JNum 2), (''index'', JNum 2)])"
    by (intro exI [of _ r2] exI [of _ w2] exI [of _ cs])
       (simp add: action_path_def items_action_def)
qed

text \<open>
  C10 as stated fails: the index key is not always seen. The entry of an action named
  \<^verbatim>\<open>trigger\<close> is overwritten by the trigger's output; when an earlier finished step has
  the action's name, the output is recorded on that step while the entry shows the step
  started last; and when the step found has no output property nothing is recorded.
\<close>

theorem fan_out_index_unseen_counterexample:
  "output_at
     (fst (snd (runAction echo_collab no_exec (items_action ''trigger'' [JObj [(''x'', JNum 1)]]) None
                  (run_with playing []) fresh_world))) ''trigger''
     = Some (JObj [(''x'', JNum 1), (''index'', JNum 1)]) \<and>
   get_prop ''trigger''
     (getStepsOutput
        (fst (snd (runAction echo_collab no_exec (items_action ''trigger'' [JObj [(''x'', JNum 1)]]) None
                     (run_with playing []) fresh_world))))
     = Some (JObj []) \<and>
   get_prop ''index'' (JObj []) = None \<and>
   output_at
     (fst (snd (runAction echo_collab no_exec (items_action ''h'' [JObj [(''x'', JNum 1)]]) None
                  (run_with playing
                     [ActionStep (http_schema ''h'') JNull (Present (JObj [])) Undefined 0 (Some 1)])
                  fresh_world))) ''h''
     = Some (JObj [(''x'', JNum 1), (''index'', JNum 1)]) \<and>
   get_prop ''h''
     (getStepsOutput
        (fst (snd (runAction echo_collab no_exec (items_action ''h'' [JObj [(''x'', JNum 1)]]) None
                     (run_with playing
                        [ActionStep (http_schema ''h'') JNull (Present (JObj [])) Undefined 0 (Some 1)])
                     fresh_world))))
     = Some (JObj []) \<and>
   fst (runAction echo_collab no_exec (items_action ''h'' [JObj [(''x'', JNum 1)]]) None
          (run_with playing
             [ActionStep (http_schema ''h'') JNull Absent (Present (Error ''old'')) 0 (Some 1)])
          fresh_world) = Inr True \<and>
   output_at
     (fst (snd (runAction echo_collab no_exec (items_action ''h'' [JObj [(''x'', JNum 1)]]) None
                  (run_with playing
                     [ActionStep (http_schema ''h'') JNull Absent (Present (Error ''old'')) 0 (Some 1)])
                  fresh_world))) ''h''
     = None"
  by (simp add: runAction_def dispatch_eval echo_collab_def items_action_def fresh_world_def
        example_defs path_eval successActionStep_def output_at_def with_index_def Let_def)

section \<open>A split whose paths all stop\<close>

lemma path_output_entry:
  "path_output (path_entry C r p)
     = (case try_path C r p of Inl e \<Rightarrow> caught_output e | Inr (flt, result) \<Rightarrow> result)"
  by (cases "try_path C r p")
     (auto simp: path_entry_def caught_output_def String_error_def)

lemma split_loop_lookup:
  "map_of (fst (split_loop C r ds paths acc)) k = Some v \<Longrightarrow>
   (\<exists>p\<in>set ds. v = path_output (path_entry C r p)) \<or> map_of paths k = Some v"
proof (induction ds arbitrary: paths acc)
  case Nil
  then show ?case by simp
next
  case (Cons p ds)
  show ?case
  proof (cases "try_path C r p")
    case (Inl e)
    with Cons.prems
    have "map_of (fst (split_loop C r ds (AList.update (path_name p) (caught_output e) paths)
                         (acc @ [Path p (path_filter p) (caught_output e) []]))) k = Some v"
      by simp
    from Cons.IH [OF this] show ?thesis
      using Inl by (auto simp: update_conv' path_output_entry split: if_splits)
  next
    case (Inr fr)
    obtain flt result where fr: "fr = (flt, result)" by (cases fr)
    with Cons.prems Inr
    have "map_of (fst (split_loop C r ds (AList.update (path_name p) result paths)
                         (acc @ [Path p flt result []]))) k = Some v"
      by simp
    from Cons.IH [OF this] show ?thesis
      using Inr fr by (auto simp: update_conv' path_output_entry split: if_splits)
  qed
qed

lemma executePaths_loop_skips:
  "\<forall>p\<in>set ds. \<not> canContinue_true (get_prop (path_name p) data) \<Longrightarrow>
   executePaths_loop ex n pathName data ds failure r w = (failure, r, w)"
  by (induction ds) (simp_all add: Let_def)

lemma stopped_is_object:
  "get_prop ''canContinue'' v = Some (JBool False) \<Longrightarrow> truthy v \<and> \<not> canContinue_true (Some v)"
  by (cases v) simp_all

lemma all_paths_stopped_entries:
  "\<forall>p\<in>set declared. get_prop ''canContinue'' (path_output (path_entry C r p)) = Some (JBool False) \<Longrightarrow>
   all_paths_stopped (map (path_entry C r) declared) = Inr True"
  by (induction declared) auto

lemma runAction_all_stopped:
  assumes split: "service act = ''filter''" "action act = ''split-into-paths''"
      "params act = PathList declared"
    and allstop: "\<forall>p\<in>set declared.
                    get_prop ''canContinue'' (path_output (path_entry C r p)) = Some (JBool False)"
    and dotfree: "CHR ''.'' \<notin> set (name act)"
    and fresh: "find_step (name act) (steps r) = None"
  shows "\<exists>r2 w2 paths.
           status r2 = status r \<and>
           (\<exists>s. getActionOrPathsStep r2 (name act) None = Inr (Some s)) \<and>
           (\<forall>ex. runAction C ex act None r w
                   = returning_false (filterRun (name act) (JObj paths) r2 w2))"
proof -
  let ?E = "map (path_entry C r) declared"
  let ?sch = "\<lparr>ps_name = name act, ps_service = service act, ps_action = action act\<rparr>"
  let ?PS = "PathsStep ?sch (clock w) None ?E"
  let ?r1 = "startActionPathsStep (clock w) (Suc (clock w)) act ?E r"
  let ?w1 = "runRepository_update ?r1 (ticks 2 w)"
  have entries: "snd (split_loop C r declared [] []) = ?E"
    using split_loop_entries [of C r declared "[]" "[]"] by simp
  obtain paths where loop: "split_loop C r declared [] [] = (paths, ?E)"
    using entries by (cases "split_loop C r declared [] []") simp
  have vals: "\<exists>p\<in>set declared. v = path_output (path_entry C r p)"
    if "map_of paths k = Some v" for k v
    using split_loop_lookup [of C r declared "[]" "[]" k v] that loop by simp
  have ex1: "execute_action C act (name act) r w = (Data (JObj paths), ?r1, ?w1)"
    using split loop by (simp add: execute_action_def dispatch_def or_empty_def Let_def)
  have cf: "canContinue_falsy (JObj paths) = Inr False"
  proof (cases "map_of paths ''canContinue''")
    case None
    then show ?thesis by simp
  next
    case (Some v)
    from vals [OF this] allstop have "truthy v"
      using stopped_is_object by blast
    with Some show ?thesis by simp
  qed
  have sp: "split_dot (name act) = [name act]"
    using dotfree by (simp add: split_dot_dotfree)
  have g1: "getActionOrPathsStep ?r1 (name act) None = Inr (Some ?PS)"
    using fresh by (simp add: getActionOrPathsStep_single [OF sp] startActionPathsStep_def
          find_step_append)
  let ?r2 = "(modifyStep (\<lambda>s. set_finishedAt (clock ?w1) (set_output (JObj paths) s)) ?r1 (name act) None)
               \<lparr>updatedAt := Suc (clock ?w1)\<rparr>"
  let ?w2 = "runRepository_update ?r2 (ticks 2 ?w1)"
  have s: "successActionStep (clock ?w1) (Suc (clock ?w1)) (name act) (JObj paths) ?r1 = Inr ?r2"
    using successActionStep_found(1) [OF g1] .
  have g2: "getActionOrPathsStep ?r2 (name act) None
              = Inr (Some (PathsStep ?sch (clock w) (Some (clock ?w1)) ?E))"
    using successActionStep_found(2)
            [OF g1, where ?t1.0 = "clock ?w1" and v = "JObj paths" and ?t2.0 = "Suc (clock ?w1)"]
    by simp
  have skip: "\<forall>p\<in>set declared. \<not> canContinue_true (get_prop (path_name p) (JObj paths))"
  proof
    fix p assume "p \<in> set declared"
    show "\<not> canContinue_true (get_prop (path_name p) (JObj paths))"
    proof (cases "map_of paths (path_name p)")
      case None
      then show ?thesis by simp
    next
      case (Some v)
      from vals [OF this] allstop have "\<not> canContinue_true (Some v)"
        using stopped_is_object by blast
      with Some show ?thesis by simp
    qed
  qed
  have ep: "executePaths ex act (JObj paths) None ?r2 ?w2 = (None, ?r2, ?w2)" for ex
    using split(3) executePaths_loop_skips [OF skip] by (simp add: executePaths_def)
  have ap: "after_paths (name act) (JObj paths) ?r2 ?w2
              = returning_false (filterRun (name act) (JObj paths) ?r2 ?w2)"
    using g2 all_paths_stopped_entries [OF allstop] by (simp add: after_paths_def)
  have ra: "runAction C ex act None r w
              = returning_false (filterRun (name act) (JObj paths) ?r2 ?w2)" for ex
    using ex1 cf s ep [of ex] ap split(1,2)
    by (simp add: runAction_def action_path_def Let_def)
  have st: "status ?r2 = status r"
    by (simp add: modifyStep_status startActionPathsStep_def)
  show ?thesis
    using st g2 ra by blast
qed

text \<open>
  C9 (amended). For a top-level split-into-paths action whose name no earlier step of the
  run has, and all of whose paths' filter outputs have \<^verbatim>\<open>canContinue === false\<close> (a filter
  that threw counts as such), \<open>runAction\<close> executes no path and returns false, so the
  actions after it are not run, and it applies \<open>filterActionStep\<close>: the status of the run
  becomes filtered if it was playing and is left as it is otherwise.
\<close>

theorem split_into_paths_all_stopped:
  assumes "service act = ''filter''" and "action act = ''split-into-paths''"
    and "params act = PathList declared"
    and "\<forall>p\<in>set declared.
           get_prop ''canContinue'' (path_output (path_entry C r p)) = Some (JBool False)"
    and "CHR ''.'' \<notin> set (name act)"
    and "find_step (name act) (steps r) = None"
  shows "fst (runAction C ex act None r w) = Inr False \<and>
         status (fst (snd (runAction C ex act None r w)))
           = (if status r = playing then filtered else status r) \<and>
         runAction C ex act None r w = runAction C no_exec act None r w"
proof -
  from runAction_all_stopped [OF assms, of w]
  obtain r2 w2 paths s where st: "status r2 = status r"
    and g: "getActionOrPathsStep r2 (name act) None = Inr (Some s)"
    and ra: "\<And>ex. runAction C ex act None r w
                    = returning_false (filterRun (name act) (JObj paths) r2 w2)"
    by blast
  have "fst (returning_false (filterRun (name act) (JObj paths) r2 w2)) = Inr False"
    and "status (fst (snd (returning_false (filterRun (name act) (JObj paths) r2 w2))))
           = (if status r = playing then filtered else status r)"
    using st g
    by (simp_all add: filterRun_def filterActionStep_def getActionOrPathsStepOrThrow_def
          modifyStep_status)
  then show ?thesis
    using ra [of ex] ra [of no_exec] by simp
qed

theorem split_into_paths_all_stopped_witness:
  "fst (runAction echo_collab no_exec
          (split_action ''s'' [declared_path ''p2'' ''bad'', declared_path ''p3'' ''no''])
          None (run_with playing []) fresh_world) = Inr False \<and>
   status (fst (snd (runAction echo_collab no_exec
          (split_action ''s'' [declared_path ''p2'' ''bad'', declared_path ''p3'' ''no''])
          None (run_with playing []) fresh_world))) = filtered"
proof -
  let ?ds = "[declared_path ''p2'' ''bad'', declared_path ''p3'' ''no'']"
  let ?act = "split_action ''s'' ?ds"
  let ?r = "run_with playing []"
  have 1: "service ?act = ''filter''" and 2: "action ?act = ''split-into-paths''"
    and 3: "params ?act = PathList ?ds"
    by (simp_all add: split_action_def)
  have 4: "\<forall>p\<in>set ?ds.
             get_prop ''canContinue'' (path_output (path_entry echo_collab ?r p)) = Some (JBool False)"
    by (simp add: path_entry_def try_path_def echo_collab_def declared_path_def)
  have 5: "CHR ''.'' \<notin> set (name ?act)" by (simp add: split_action_def)
  have 6: "find_step (name ?act) (steps ?r) = None" by (simp add: run_with_def)
  have 7: "status ?r = playing" by (simp add: run_with_def)
  show ?thesis
    using split_into_paths_all_stopped [OF 1 2 3 4 5 6, of no_exec fresh_world] 7 by simp
qed

text \<open>
  C9 as stated fails. On a run that is already stopped the status stays stopped, since
  \<open>filterActionStep\<close> writes to a playing run only. And for a split-into-paths action
  inside a path (here \<^verbatim>\<open>t\<close> inside \<^verbatim>\<open>s.p\<close>) the paths step is appended to the
  top-level steps, \<open>successActionStep\<close> does not find it under the path and throws, and the
  status of the playing run is not set to filtered.
\<close>

theorem split_into_paths_all_stopped_counterexample:
  "status (fst (snd (runAction echo_collab no_exec
          (split_action ''s'' [declared_path ''p2'' ''bad'', declared_path ''p3'' ''no''])
          None (run_with stopped []) fresh_world))) = stopped \<and>
   fst (runAction echo_collab no_exec (split_action ''t'' [declared_path ''q'' ''no''])
          (Some ''s.p'') (run_with playing [branch ''s'' [way ''p'' True []]]) fresh_world)
     = Inl (Error ''Action step \"s.p.t\" not found'') \<and>
   status (fst (snd (runAction echo_collab no_exec (split_action ''t'' [declared_path ''q'' ''no''])
          (Some ''s.p'') (run_with playing [branch ''s'' [way ''p'' True []]]) fresh_world)))
     = playing"
  by (simp add: runAction_def dispatch_eval echo_collab_def split_action_def declared_path_def
        fresh_world_def example_defs path_eval successActionStep_def try_path_def
        executePaths_def after_paths_def filterRun_def filterActionStep_def
        no_exec_def caught_output_def String_error_def path_has_error_def Let_def)

end
